theory Spec2Isabelle
  imports Main "HOL-Library.AList"
begin

section \<open>Platform model: JSON values and JavaScript property access\<close>

text \<open>
  A transcript line is parsed by \<^verbatim>\<open>JSON.parse\<close>; the result is an untyped JSON
  value, which the TypeScript code only casts to \<^verbatim>\<open>ConversationMessage\<close>. Numbers
  are integers here (token counts and epoch milliseconds); a JavaScript double is exact
  on integers of magnitude below \<open>2 ^ 53\<close>.
\<close>

datatype json =
    JNull
  | JBool bool
  | JNum int
  | JStr string
  | JArr "json list"
  | JObj "(string \<times> json) list"

text \<open>
  \<^verbatim>\<open>JSON.parse\<close> itself is a parameter of every reader: \<open>None\<close> is the
  \<^verbatim>\<open>SyntaxError\<close> it throws. A line is handed over as bytes: where a reader only
  trims and parses its lines, these are the bytes of the file, and the parameter stands
  for decoding followed by \<^verbatim>\<open>JSON.parse\<close>; the incremental readers count the bytes
  of the decoded text, which is explicit there.
\<close>

type_synonym parser = "string \<Rightarrow> json option"

text \<open>
  \<^verbatim>\<open>v.k\<close> on a value that is not null: an object yields the value of its last
  member named \<open>k\<close> (a later duplicate key overrides an earlier one), and \<open>None\<close>
  (undefined) when it has none; booleans, numbers, strings and arrays have none of the
  property names the code reads (type, message, usage, content, text and the token
  fields).
\<close>

fun jget :: "json \<Rightarrow> string \<Rightarrow> json option" where
  "jget (JObj kvs) k = map_of (rev kvs) k"
| "jget _ k = None"

text \<open>\<^verbatim>\<open>v.k\<close> in general: reading a property of null throws a TypeError (outer \<open>None\<close>).\<close>

definition jget_strict :: "json \<Rightarrow> string \<Rightarrow> json option option" where
  "jget_strict v k = (if v = JNull then None else Some (jget v k))"

text \<open>\<^verbatim>\<open>v?.k\<close>: undefined when the receiver is undefined or null.\<close>

fun jget_opt :: "json option \<Rightarrow> string \<Rightarrow> json option" where
  "jget_opt None k = None"
| "jget_opt (Some v) k = (if v = JNull then None else jget v k)"

text \<open>JavaScript truthiness of a possibly undefined JSON value.\<close>

fun truthy :: "json option \<Rightarrow> bool" where
  "truthy None = False"
| "truthy (Some JNull) = False"
| "truthy (Some (JBool b)) = b"
| "truthy (Some (JNum n)) = (n \<noteq> 0)"
| "truthy (Some (JStr s)) = (s \<noteq> [])"
| "truthy (Some (JArr xs)) = True"
| "truthy (Some (JObj kvs)) = True"

section \<open>Platform model: strings, lines and files\<close>

abbreviation LF :: char where "LF \<equiv> CHR 0x0A"
abbreviation CR :: char where "CR \<equiv> CHR 0x0D"

text \<open>
  \<open>ws_len s\<close> is the number of bytes of the JavaScript white space character or line
  terminator at the head of \<open>s\<close> (the characters \<^verbatim>\<open>String.prototype.trim\<close> removes),
  and 0 when \<open>s\<close> does not start with one. Beyond the six ASCII ones these are U+00A0,
  U+1680, U+2000 to U+200A, U+2028, U+2029, U+202F, U+205F, U+3000 and U+FEFF, in their
  UTF-8 encodings.
\<close>

definition ws_len :: "string \<Rightarrow> nat" where
  "ws_len s =
     (case map of_char (take 3 s) :: nat list of
        [] \<Rightarrow> 0
      | a # r \<Rightarrow>
          if a = 9 \<or> a = 10 \<or> a = 11 \<or> a = 12 \<or> a = 13 \<or> a = 32 then 1
          else if a = 194 \<and> take 1 r = [160] then 2
          else if a = 225 \<and> take 2 r = [154, 128] then 3
          else if a = 226 \<and> take 1 r = [128] \<and>
                  (case drop 1 r of [] \<Rightarrow> False
                   | c # _ \<Rightarrow> (128 \<le> c \<and> c \<le> 138) \<or> c = 168 \<or> c = 169 \<or> c = 175) then 3
          else if a = 226 \<and> take 2 r = [129, 159] then 3
          else if a = 227 \<and> take 2 r = [128, 128] then 3
          else if a = 239 \<and> take 2 r = [187, 191] then 3
          else 0)"

text \<open>\<^verbatim>\<open>!line.trim()\<close>: the line consists of white space only.\<close>

function js_blank :: "string \<Rightarrow> bool" where
  "js_blank s =
     (if s = [] then True
      else if ws_len s = 0 then False
      else js_blank (drop (ws_len s) s))"
  by pat_completeness auto
termination
  by (relation "measure length") auto

declare js_blank.simps [simp del]

function js_trimStart :: "string \<Rightarrow> string" where
  "js_trimStart s =
     (if s = [] \<or> ws_len s = 0 then s else js_trimStart (drop (ws_len s) s))"
  by pat_completeness auto
termination
  by (relation "measure length") auto

declare js_trimStart.simps [simp del]

fun js_trimEnd :: "string \<Rightarrow> string" where
  "js_trimEnd [] = []"
| "js_trimEnd (c # cs) = (if js_blank (c # cs) then [] else c # js_trimEnd cs)"

definition js_trim :: "string \<Rightarrow> string" where
  "js_trim s = js_trimEnd (js_trimStart s)"

text \<open>\<^verbatim>\<open>s.split("\\n")\<close>: always at least one piece, the last one possibly empty.\<close>

fun split_nl :: "string \<Rightarrow> string list" where
  "split_nl [] = [[]]"
| "split_nl (c # cs) =
     (if c = LF then [] # split_nl cs
      else (case split_nl cs of [] \<Rightarrow> [[c]] | l # ls \<Rightarrow> (c # l) # ls))"

text \<open>
  The lines Node's \<^verbatim>\<open>readline\<close> interface yields for a whole stream with
  \<^verbatim>\<open>crlfDelay: Infinity\<close>. Its line endings are those of the regular expression
  \<^verbatim>\<open>/\\r?\\n|\\r(?!\\n)|\\u2028|\\u2029/\<close>: a line ends at \<open>\\n\<close>, at \<open>\\r\\n\<close> (one
  terminator), at a lone \<open>\\r\<close>, or at one of the characters U+2028 and U+2029 (E2 80 A8
  and E2 80 A9 in UTF-8); the terminator is not part of the line; text after the last
  terminator is a final line when it is not empty.
\<close>

definition line_sep :: "string \<Rightarrow> bool" where
  "line_sep s =
     (take 3 s = [CHR 0xE2, CHR 0x80, CHR 0xA8] \<or> take 3 s = [CHR 0xE2, CHR 0x80, CHR 0xA9])"

function readline_from :: "string \<Rightarrow> string \<Rightarrow> string list" where
  "readline_from cur [] = (if cur = [] then [] else [cur])"
| "readline_from cur (c # cs) =
     (if c = LF then cur # readline_from [] cs
      else if c = CR then
        (if cs \<noteq> [] \<and> hd cs = LF then cur # readline_from [] (tl cs)
         else cur # readline_from [] cs)
      else if line_sep (c # cs) then cur # readline_from [] (drop 2 cs)
      else readline_from (cur @ [c]) cs)"
  by pat_completeness auto
termination
  by (relation "measure (\<lambda>(cur, s). length s)") auto

definition readline_lines :: "string \<Rightarrow> string list" where
  "readline_lines s = readline_from [] s"

text \<open>
  JavaScript strings are indexed by UTF-16 code unit. On the UTF-8 bytes of a string, a
  continuation byte (0x80 to 0xBF) starts no code unit, a lead byte below 0xF0 starts a
  character of one unit, and a lead byte from 0xF0 starts one of two units (a surrogate
  pair).
\<close>

definition is_cont :: "char \<Rightarrow> bool" where
  "is_cont c = (128 \<le> (of_char c :: nat) \<and> (of_char c :: nat) < 192)"

definition units_of :: "char \<Rightarrow> nat" where
  "units_of c = (if is_cont c then 0 else if (of_char c :: nat) < 240 then 1 else 2)"

text \<open>\<^verbatim>\<open>s.length\<close>.\<close>

fun js_length :: "string \<Rightarrow> nat" where
  "js_length [] = 0"
| "js_length (c # cs) = units_of c + js_length cs"

text \<open>
  \<^verbatim>\<open>s.slice(n)\<close> for \<open>n \<ge> 0\<close>. A cut inside a surrogate pair leaves the low surrogate
  of the pair at the head of the slice. A lone surrogate has no UTF-8 encoding; it is
  written here in the three bytes of the generalised encoding (ED, then B0 to BF, then
  the last byte of the character), so that it counts one code unit and three bytes, as
  \<^verbatim>\<open>Buffer.byteLength\<close> counts it, and is no well-formed sequence.
\<close>

definition low_surrogate :: "string \<Rightarrow> string" where
  "low_surrogate cs =
     (case cs of
        b1 # b2 # b3 # rest \<Rightarrow> [CHR 0xED, char_of (176 + (of_char b2 :: nat) mod 16), b3]
      | _ \<Rightarrow> [])"

function js_drop :: "nat \<Rightarrow> string \<Rightarrow> string" where
  "js_drop 0 s = s"
| "js_drop (Suc n) [] = []"
| "js_drop (Suc n) (c # cs) =
     (if n = 0 \<and> units_of c = 2 then low_surrogate cs @ dropWhile is_cont cs
      else js_drop (Suc n - units_of c) (dropWhile is_cont cs))"
  by pat_completeness auto
termination
  by (relation "measure (\<lambda>(n, s). length s)")
     (auto simp: less_Suc_eq_le length_dropWhile_le)

text \<open>
  \<^verbatim>\<open>s.slice(0, n)\<close> for \<open>n \<ge> 0\<close>. A cut that falls inside a surrogate pair moves to the
  end of that character (JavaScript keeps the high surrogate alone there).
\<close>

function js_take :: "nat \<Rightarrow> string \<Rightarrow> string" where
  "js_take 0 s = []"
| "js_take (Suc n) [] = []"
| "js_take (Suc n) (c # cs) =
     c # takeWhile is_cont cs @ js_take (Suc n - units_of c) (dropWhile is_cont cs)"
  by pat_completeness auto
termination
  by (relation "measure (\<lambda>(n, s). length s)")
     (auto simp: less_Suc_eq_le length_dropWhile_le)

text \<open>
  A file is read as UTF-8 (\<^verbatim>\<open>readFile(path, "utf-8")\<close>, or a stream opened with
  \<^verbatim>\<open>encoding: "utf-8"\<close>). The decoder keeps every well-formed sequence and puts U+FFFD
  for every maximal ill-formed part: a lead byte with as many of the bytes after it as
  continue a well-formed sequence, or a single byte that starts none. \<open>utf8_need a\<close> is
  the length of a sequence led by the byte \<open>a\<close> (0: no lead byte), \<open>utf8_second a b\<close>
  tells whether \<open>b\<close> may follow the lead byte \<open>a\<close>, and \<open>utf8_matched a cs\<close> counts the
  bytes of \<open>cs\<close> that continue the sequence led by \<open>a\<close>.
\<close>

definition utf8_need :: "nat \<Rightarrow> nat" where
  "utf8_need a =
     (if a < 128 then 1
      else if 194 \<le> a \<and> a \<le> 223 then 2
      else if 224 \<le> a \<and> a \<le> 239 then 3
      else if 240 \<le> a \<and> a \<le> 244 then 4
      else 0)"

definition utf8_second :: "nat \<Rightarrow> nat \<Rightarrow> bool" where
  "utf8_second a b =
     (if a = 224 then 160 \<le> b \<and> b \<le> 191
      else if a = 237 then 128 \<le> b \<and> b \<le> 159
      else if a = 240 then 144 \<le> b \<and> b \<le> 191
      else if a = 244 then 128 \<le> b \<and> b \<le> 143
      else 128 \<le> b \<and> b \<le> 191)"

definition utf8_matched :: "nat \<Rightarrow> string \<Rightarrow> nat" where
  "utf8_matched a cs =
     (if utf8_need a \<le> 1 then 0
      else
        (case cs of
           [] \<Rightarrow> 0
         | b # cs' \<Rightarrow>
             if utf8_second a (of_char b)
             then Suc (length (takeWhile is_cont (take (utf8_need a - 2) cs')))
             else 0))"

text \<open>
  The decoded text of a file, given by its own UTF-8 bytes (U+FFFD is EF BF BD): on a
  decoded string \<open>s\<close>, \<^verbatim>\<open>Buffer.byteLength(s, "utf-8")\<close> is \<open>length s\<close>. A file of
  well-formed UTF-8 (\<open>valid_utf8\<close>) is its own decoded text.
\<close>

function utf8_text :: "string \<Rightarrow> string" where
  "utf8_text [] = []"
| "utf8_text (c # cs) =
     (let a = of_char c; m = utf8_matched a cs in
      (if Suc m = utf8_need a then c # take m cs
       else [CHR 0xEF, CHR 0xBF, CHR 0xBD])
      @ utf8_text (drop m cs))"
  by pat_completeness auto
termination
  by (relation "measure length") auto

fun valid_utf8 :: "string \<Rightarrow> bool" where
  "valid_utf8 [] = True"
| "valid_utf8 (c # cs) =
     (let a = of_char c; m = utf8_matched a cs in
      Suc m = utf8_need a \<and> valid_utf8 (drop m cs))"

text \<open>
  What the lookup and the reads of a session file can give: \<^verbatim>\<open>findSessionFile\<close>
  returns null (\<open>Missing\<close>), or it returns a path and \<^verbatim>\<open>stat\<close>, \<^verbatim>\<open>open\<close> or
  \<^verbatim>\<open>readFile\<close> throws (\<open>Unreadable\<close>), or the file has the given bytes.
\<close>

datatype file_state = Missing | Unreadable | File string

section \<open>A JSON parser for concrete inputs\<close>

text \<open>
  The theorems about the readers hold for every parser. Where a concrete transcript is
  evaluated, \<open>JSON_parse\<close> stands for \<^verbatim>\<open>JSON.parse\<close>: a recursive-descent parser
  for the JSON of the transcripts used here (objects, arrays, strings with the
  single-character escapes, integers, true, false, null, white space between tokens).
  It rejects fractions, exponents and \<open>\\u\<close> escapes, which those inputs do not contain.
\<close>

datatype token =
    TLBrace | TRBrace | TLBrack | TRBrack | TComma | TColon
  | TString string | TNumber int | TTrue | TFalse | TNull

definition unescape :: "char \<Rightarrow> char option" where
  "unescape e =
     (if e = CHR 0x22 \<or> e = CHR 0x5C \<or> e = CHR ''/'' then Some e
      else if e = CHR ''n'' then Some LF
      else if e = CHR ''r'' then Some CR
      else if e = CHR ''t'' then Some (CHR 0x09)
      else if e = CHR ''b'' then Some (CHR 0x08)
      else if e = CHR ''f'' then Some (CHR 0x0C)
      else None)"

text \<open>The body of a string literal, after its opening quote: the text and the rest.\<close>

fun lex_string :: "string \<Rightarrow> string \<Rightarrow> (string \<times> string) option" where
  "lex_string acc [] = None"
| "lex_string acc [c] = (if c = CHR 0x22 then Some (acc, []) else None)"
| "lex_string acc (c # d # cs) =
     (if c = CHR 0x22 then Some (acc, d # cs)
      else if c = CHR 0x5C then
        (case unescape d of None \<Rightarrow> None | Some x \<Rightarrow> lex_string (acc @ [x]) cs)
      else if (of_char c :: nat) < 32 then None
      else lex_string (acc @ [c]) (d # cs))"

definition is_digit :: "char \<Rightarrow> bool" where
  "is_digit c = (48 \<le> (of_char c :: nat) \<and> (of_char c :: nat) \<le> 57)"

fun digits_value :: "nat \<Rightarrow> string \<Rightarrow> nat" where
  "digits_value acc [] = acc"
| "digits_value acc (c # cs) = digits_value (10 * acc + (of_char c - 48)) cs"

text \<open>
  An integer literal at the head of the input: a single \<open>0\<close>, or a nonzero digit
  followed by digits (a leading zero ends the literal, and the parser then rejects the
  digit after it).
\<close>

definition lex_nat :: "string \<Rightarrow> (nat \<times> string) option" where
  "lex_nat s =
     (case s of
        [] \<Rightarrow> None
      | c # cs \<Rightarrow>
          if c = CHR ''0'' then Some (0, cs)
          else if is_digit c then
            Some (digits_value 0 (c # takeWhile is_digit cs), dropWhile is_digit cs)
          else None)"

fun lex :: "nat \<Rightarrow> string \<Rightarrow> token list option" where
  "lex fuel [] = Some []"
| "lex 0 (c # cs) = None"
| "lex (Suc fuel) (c # cs) =
     (if c = CHR '' '' \<or> c = LF \<or> c = CR \<or> c = CHR 0x09 then lex fuel cs
      else if c = CHR ''{'' then map_option ((#) TLBrace) (lex fuel cs)
      else if c = CHR ''}'' then map_option ((#) TRBrace) (lex fuel cs)
      else if c = CHR ''['' then map_option ((#) TLBrack) (lex fuel cs)
      else if c = CHR '']'' then map_option ((#) TRBrack) (lex fuel cs)
      else if c = CHR '','' then map_option ((#) TComma) (lex fuel cs)
      else if c = CHR '':'' then map_option ((#) TColon) (lex fuel cs)
      else if c = CHR 0x22 then
        (case lex_string [] cs of
           None \<Rightarrow> None
         | Some (str, rest) \<Rightarrow> map_option ((#) (TString str)) (lex fuel rest))
      else if c = CHR ''-'' then
        (case lex_nat cs of
           None \<Rightarrow> None
         | Some (n, rest) \<Rightarrow> map_option ((#) (TNumber (- int n))) (lex fuel rest))
      else if is_digit c then
        (case lex_nat (c # cs) of
           None \<Rightarrow> None
         | Some (n, rest) \<Rightarrow> map_option ((#) (TNumber (int n))) (lex fuel rest))
      else if take 4 (c # cs) = ''true'' then map_option ((#) TTrue) (lex fuel (drop 3 cs))
      else if take 5 (c # cs) = ''false'' then map_option ((#) TFalse) (lex fuel (drop 4 cs))
      else if take 4 (c # cs) = ''null'' then map_option ((#) TNull) (lex fuel (drop 3 cs))
      else None)"

fun parse_value :: "nat \<Rightarrow> token list \<Rightarrow> (json \<times> token list) option"
  and parse_elements :: "nat \<Rightarrow> token list \<Rightarrow> (json list \<times> token list) option"
  and parse_members :: "nat \<Rightarrow> token list \<Rightarrow> ((string \<times> json) list \<times> token list) option"
where
  "parse_value 0 ts = None"
| "parse_value (Suc fuel) ts =
     (case ts of
        TString s # r \<Rightarrow> Some (JStr s, r)
      | TNumber n # r \<Rightarrow> Some (JNum n, r)
      | TTrue # r \<Rightarrow> Some (JBool True, r)
      | TFalse # r \<Rightarrow> Some (JBool False, r)
      | TNull # r \<Rightarrow> Some (JNull, r)
      | TLBrack # r \<Rightarrow>
          (if r \<noteq> [] \<and> hd r = TRBrack then Some (JArr [], tl r)
           else map_option (\<lambda>(vs, r'). (JArr vs, r')) (parse_elements fuel r))
      | TLBrace # r \<Rightarrow>
          (if r \<noteq> [] \<and> hd r = TRBrace then Some (JObj [], tl r)
           else map_option (\<lambda>(kvs, r'). (JObj kvs, r')) (parse_members fuel r))
      | _ \<Rightarrow> None)"
| "parse_elements 0 ts = None"
| "parse_elements (Suc fuel) ts =
     (case parse_value fuel ts of
        None \<Rightarrow> None
      | Some (v, r) \<Rightarrow>
          (case r of
             TComma # r' \<Rightarrow> map_option (\<lambda>(vs, r''). (v # vs, r'')) (parse_elements fuel r')
           | TRBrack # r' \<Rightarrow> Some ([v], r')
           | _ \<Rightarrow> None))"
| "parse_members 0 ts = None"
| "parse_members (Suc fuel) ts =
     (case ts of
        TString k # TColon # r \<Rightarrow>
          (case parse_value fuel r of
             None \<Rightarrow> None
           | Some (v, r') \<Rightarrow>
               (case r' of
                  TComma # r'' \<Rightarrow>
                    map_option (\<lambda>(kvs, r3). ((k, v) # kvs, r3)) (parse_members fuel r'')
                | TRBrace # r'' \<Rightarrow> Some ([(k, v)], r'')
                | _ \<Rightarrow> None))
      | _ \<Rightarrow> None)"

text \<open>
  Every step of the lexer consumes a byte and every call of the parser a token, so the
  input's length is fuel enough; the value must be followed by nothing.
\<close>

definition JSON_parse :: parser where
  "JSON_parse s =
     (case lex (length s) s of
        None \<Rightarrow> None
      | Some ts \<Rightarrow>
          (case parse_value (Suc (length ts)) ts of
             Some (v, []) \<Rightarrow> Some v
           | _ \<Rightarrow> None))"

section \<open>Path codec (api/storage.ts, encodeProjectPath)\<close>

text \<open>
  Strings are byte sequences (UTF-8), as the files on disk are. The source is
  \<^verbatim>\<open>path.replace(/[/.]/g, "-")\<close>: a left-to-right scan that replaces each slash
  and each dot by a dash. Both characters are ASCII, so the scan over bytes and the
  scan over UTF-16 code units replace the same positions.
\<close>

fun encodeProjectPath :: "string \<Rightarrow> string" where
  "encodeProjectPath [] = []"
| "encodeProjectPath (c # cs) =
     (if c = CHR ''/'' \<or> c = CHR ''.'' then CHR ''-'' else c) # encodeProjectPath cs"

section \<open>Conversation reader: full read (api/storage.ts, getConversation)\<close>

text \<open>
  \<^verbatim>\<open>content.trim().split("\\n").filter(Boolean)\<close>: the pieces that are not the empty
  string. A piece of white space only stays, and fails to parse.
\<close>

definition conversation_lines :: "string \<Rightarrow> string list" where
  "conversation_lines content = filter (\<lambda>l. l \<noteq> []) (split_nl (js_trim content))"

text \<open>
  One turn of the loop over the lines. The \<^verbatim>\<open>catch\<close> takes both the SyntaxError
  of \<^verbatim>\<open>JSON.parse\<close> and the TypeError of \<^verbatim>\<open>msg.type\<close> on a line that is the JSON
  \<open>null\<close>; \<^verbatim>\<open>push\<close> appends and \<^verbatim>\<open>unshift\<close> prepends.
\<close>

definition conversation_step :: "parser \<Rightarrow> json list \<Rightarrow> string \<Rightarrow> json list" where
  "conversation_step parse messages line =
     (case parse line of
        None \<Rightarrow> messages
      | Some msg \<Rightarrow>
          (case jget_strict msg ''type'' of
             None \<Rightarrow> messages
           | Some t \<Rightarrow>
               if t = Some (JStr ''user'') \<or> t = Some (JStr ''assistant'') then messages @ [msg]
               else if t = Some (JStr ''summary'') then msg # messages
               else messages))"

definition getConversation :: "parser \<Rightarrow> file_state \<Rightarrow> json list" where
  "getConversation parse f =
     (case f of
        Missing \<Rightarrow> []
      | Unreadable \<Rightarrow> []
      | File content \<Rightarrow> foldl (conversation_step parse) [] (conversation_lines content))"

section \<open>Conversation reader: incremental read (api/storage.ts, getConversationStream)\<close>

record stream_result =
  messages :: "json list"
  nextOffset :: nat

text \<open>
  The \<^verbatim>\<open>for await\<close> loop over the lines of the decoded text with its two
  accumulators; \<^verbatim>\<open>break\<close> returns them as they are. \<^verbatim>\<open>Buffer.byteLength(line, "utf-8")\<close>
  is the length of the decoded line, which is the number of its bytes in the file only
  where the file is well-formed UTF-8.
\<close>

fun stream_loop :: "parser \<Rightarrow> json list \<Rightarrow> nat \<Rightarrow> string list \<Rightarrow> json list \<times> nat" where
  "stream_loop parse msgs bytesConsumed [] = (msgs, bytesConsumed)"
| "stream_loop parse msgs bytesConsumed (line # rest) =
     (let lineBytes = length line + 1 in
      if \<not> js_blank line then
        (case parse line of
           None \<Rightarrow> (msgs, bytesConsumed)
         | Some msg \<Rightarrow>
             (case jget_strict msg ''type'' of
                None \<Rightarrow> (msgs, bytesConsumed)
              | Some t \<Rightarrow>
                  stream_loop parse
                    (if t = Some (JStr ''user'') \<or> t = Some (JStr ''assistant'')
                     then msgs @ [msg] else msgs)
                    (bytesConsumed + lineBytes) rest))
      else stream_loop parse msgs (bytesConsumed + lineBytes) rest)"

text \<open>
  The stream starts at byte \<open>fromOffset\<close> of the file and is decoded as UTF-8 before
  \<^verbatim>\<open>readline\<close> cuts it into lines. Offsets are byte counts, hence natural numbers.
\<close>

definition getConversationStream :: "parser \<Rightarrow> file_state \<Rightarrow> nat \<Rightarrow> stream_result" where
  "getConversationStream parse f fromOffset =
     (case f of
        Missing \<Rightarrow> \<lparr>messages = [], nextOffset = 0\<rparr>
      | Unreadable \<Rightarrow> \<lparr>messages = [], nextOffset = fromOffset\<rparr>
      | File content \<Rightarrow>
          (let fileSize = length content in
           if fromOffset \<ge> fileSize then \<lparr>messages = [], nextOffset = fromOffset\<rparr>
           else
             (let (msgs, bytesConsumed) =
                    stream_loop parse [] 0
                      (readline_lines (utf8_text (drop fromOffset content)));
                  actualOffset = fromOffset + bytesConsumed
              in \<lparr>messages = msgs,
                   nextOffset = (if actualOffset > fileSize then fileSize else actualOffset)\<rparr>)))"

section \<open>Conversation reader: incremental read of the class (src/watcher.ts, ClaudeStorage)\<close>

text \<open>
  The class reads the whole file into a string (the decoded text), slices the string at
  \<open>fromOffset\<close> (an index in UTF-16 code units) and splits at \<open>\\n\<close>; only the last
  piece counts no separator byte.
\<close>

fun storage_stream_loop :: "parser \<Rightarrow> json list \<Rightarrow> nat \<Rightarrow> string list \<Rightarrow> json list \<times> nat" where
  "storage_stream_loop parse msgs bytesConsumed [] = (msgs, bytesConsumed)"
| "storage_stream_loop parse msgs bytesConsumed (line # rest) =
     (let lineBytes = length line + (if rest \<noteq> [] then 1 else 0) in
      if \<not> js_blank line then
        (case parse line of
           None \<Rightarrow> (msgs, bytesConsumed)
         | Some msg \<Rightarrow>
             (case jget_strict msg ''type'' of
                None \<Rightarrow> (msgs, bytesConsumed)
              | Some t \<Rightarrow>
                  storage_stream_loop parse
                    (if t = Some (JStr ''user'') \<or> t = Some (JStr ''assistant'')
                     then msgs @ [msg] else msgs)
                    (bytesConsumed + lineBytes) rest))
      else storage_stream_loop parse msgs (bytesConsumed + lineBytes) rest)"

definition storage_getConversationStream :: "parser \<Rightarrow> file_state \<Rightarrow> nat \<Rightarrow> stream_result" where
  "storage_getConversationStream parse f fromOffset =
     (case f of
        Missing \<Rightarrow> \<lparr>messages = [], nextOffset = 0\<rparr>
      | Unreadable \<Rightarrow> \<lparr>messages = [], nextOffset = fromOffset\<rparr>
      | File content \<Rightarrow>
          (let fileSize = length content in
           if fromOffset \<ge> fileSize then \<lparr>messages = [], nextOffset = fromOffset\<rparr>
           else
             (let slicedContent = js_drop fromOffset (utf8_text content) in
              if slicedContent = [] then \<lparr>messages = [], nextOffset = fromOffset\<rparr>
              else
                (let (msgs, bytesConsumed) =
                       storage_stream_loop parse [] 0 (split_nl slicedContent)
                 in \<lparr>messages = msgs, nextOffset = fromOffset + bytesConsumed\<rparr>))))"

section \<open>Vocabulary for the reader theorems\<close>

text \<open>
  The value a line contributes: what \<^verbatim>\<open>JSON.parse\<close> returns, unless the line fails
  to parse or is the JSON \<open>null\<close> (both end in the \<^verbatim>\<open>catch\<close>).
\<close>

definition line_value :: "parser \<Rightarrow> string \<Rightarrow> json option" where
  "line_value parse line =
     (case parse line of None \<Rightarrow> None | Some v \<Rightarrow> if v = JNull then None else Some v)"

definition has_type :: "string \<Rightarrow> json \<Rightarrow> bool" where
  "has_type t v = (jget v ''type'' = Some (JStr t))"

text \<open>A line the incremental scan passes: blank, or with a value.\<close>

definition line_consumed :: "parser \<Rightarrow> string \<Rightarrow> bool" where
  "line_consumed parse line = (js_blank line \<or> line_value parse line \<noteq> None)"

text \<open>The message the incremental scan takes from a line it passes.\<close>

definition line_message :: "parser \<Rightarrow> string \<Rightarrow> json option" where
  "line_message parse line =
     (if js_blank line then None
      else (case line_value parse line of
              None \<Rightarrow> None
            | Some v \<Rightarrow> if has_type ''user'' v \<or> has_type ''assistant'' v then Some v else None))"

text \<open>The bytes the module-level scan counts for a list of lines: each line and one terminator.\<close>

abbreviation (input) line_bytes :: "string list \<Rightarrow> nat" where
  "line_bytes xs \<equiv> sum_list (map (\<lambda>l. length l + 1) xs)"

text \<open>
  A text whose only line terminators are line feeds: it holds no carriage return, no
  U+2028 and no U+2029.
\<close>

fun lf_only :: "string \<Rightarrow> bool" where
  "lf_only [] = True"
| "lf_only (c # cs) = (c \<noteq> CR \<and> \<not> line_sep (c # cs) \<and> lf_only cs)"

section \<open>Search (api/storage.ts, searchSessions)\<close>

text \<open>
  The fields of a \<^verbatim>\<open>Session\<close> that the search reads (the identifier is \<open>id\<close> in the
  source), a match (its snippet is \<open>text\<close> in the source) and a result. Timestamps are
  integers.
\<close>

record session =
  session_id :: string
  display :: string
  timestamp :: int
  project :: string
  projectName :: string

record search_match =
  match_text :: string
  role :: string

record search_result =
  sessionId :: string
  display :: string
  projectName :: string
  project :: string
  timestamp :: int
  matches :: "search_match list"

text \<open>The decimal digits of a natural number, and \<^verbatim>\<open>String(n)\<close> for an integer below \<open>10^21\<close>.\<close>

function digits_of :: "nat \<Rightarrow> string" where
  "digits_of n =
     (if n < 10 then [char_of (48 + n)] else digits_of (n div 10) @ [char_of (48 + n mod 10)])"
  by pat_completeness auto
termination
  by (relation "measure id") auto

declare digits_of.simps [simp del]

definition string_of_int :: "int \<Rightarrow> string" where
  "string_of_int i = (if i < 0 then CHR ''-'' # digits_of (nat (- i)) else digits_of (nat i))"

text \<open>
  \<^verbatim>\<open>String(v)\<close> as \<^verbatim>\<open>Array.prototype.join\<close> applies it to an element: null gives the
  empty string, an array its elements joined by commas, an object \<open>[object Object]\<close>.
\<close>

fun js_to_string :: "json \<Rightarrow> string" where
  "js_to_string JNull = []"
| "js_to_string (JBool b) = (if b then ''true'' else ''false'')"
| "js_to_string (JNum n) = string_of_int n"
| "js_to_string (JStr s) = s"
| "js_to_string (JArr xs) =
     (case xs of [] \<Rightarrow> [] | y # ys \<Rightarrow> js_to_string y @ concat (map (\<lambda>e. CHR '','' # js_to_string e) ys))"
| "js_to_string (JObj kvs) = ''[object Object]''"

text \<open>\<^verbatim>\<open>strings.join(" ")\<close>.\<close>

fun join_space :: "string list \<Rightarrow> string" where
  "join_space [] = []"
| "join_space [s] = s"
| "join_space (s # t # rest) = s @ CHR '' '' # join_space (t # rest)"

text \<open>
  The callback of \<^verbatim>\<open>content.filter\<close> on one block, followed by that of \<^verbatim>\<open>map\<close>: the
  outer \<open>None\<close> is the TypeError of \<^verbatim>\<open>b.type\<close> on a null block, the inner one a
  block that is filtered out.
\<close>

definition block_text :: "json \<Rightarrow> json option option" where
  "block_text b =
     (case jget_strict b ''type'' of
        None \<Rightarrow> None
      | Some t \<Rightarrow>
          if t = Some (JStr ''text'') \<and> truthy (jget b ''text'') then Some (jget b ''text'')
          else Some None)"

fun blocks_text :: "json list \<Rightarrow> json list option" where
  "blocks_text [] = Some []"
| "blocks_text (b # bs) =
     (case block_text b of
        None \<Rightarrow> None
      | Some t \<Rightarrow>
          (case blocks_text bs of
             None \<Rightarrow> None
           | Some ts \<Rightarrow> Some ((case t of None \<Rightarrow> [] | Some v \<Rightarrow> [v]) @ ts)))"

text \<open>
  \<^verbatim>\<open>extractTextContent\<close> on a message that is not null; \<open>None\<close> is a TypeError: the
  content is truthy and neither a string nor an array (it has no \<^verbatim>\<open>filter\<close> to call),
  or a block of the array is null.
\<close>

definition extractTextContent :: "json \<Rightarrow> string option" where
  "extractTextContent msg =
     (let content = jget_opt (jget msg ''message'') ''content'' in
      if \<not> truthy content then Some []
      else
        (case content of
           Some (JStr s) \<Rightarrow> Some s
         | Some (JArr blocks) \<Rightarrow>
             (case blocks_text blocks of
                None \<Rightarrow> None
              | Some ts \<Rightarrow> Some (join_space (map js_to_string ts)))
         | _ \<Rightarrow> None))"

text \<open>
  \<^verbatim>\<open>hay.indexOf(needle)\<close> as a byte position, and \<^verbatim>\<open>hay.includes(needle)\<close>. On valid
  UTF-8 a match of bytes is a match of code units.
\<close>

fun index_of :: "string \<Rightarrow> string \<Rightarrow> nat option" where
  "index_of [] needle = (if needle = [] then Some 0 else None)"
| "index_of (c # cs) needle =
     (if take (length needle) (c # cs) = needle then Some 0
      else map_option Suc (index_of cs needle))"

definition js_includes :: "string \<Rightarrow> string \<Rightarrow> bool" where
  "js_includes hay needle = (index_of hay needle \<noteq> None)"

text \<open>
  \<^verbatim>\<open>extractSnippet\<close> with its default \<open>maxLen\<close> of 120. \<^verbatim>\<open>toLowerCase\<close> is a parameter
  (\<open>lower\<close>); indices and lengths are in UTF-16 code units.
\<close>

definition extractSnippet :: "(string \<Rightarrow> string) \<Rightarrow> string \<Rightarrow> string \<Rightarrow> string" where
  "extractSnippet lower txt query =
     (let lowerText = lower txt; lowerQuery = lower query in
      case index_of lowerText lowerQuery of
        None \<Rightarrow> js_take 120 txt
      | Some pos \<Rightarrow>
          (let idx = js_length (take pos lowerText);
               start = idx - 40;
               endIdx = min (js_length txt) (idx + js_length query + 80);
               snippet = js_take (endIdx - start) (js_drop start txt);
               snippet = (if start > 0 then ''...'' @ snippet else snippet)
           in if endIdx < js_length txt then snippet @ ''...'' else snippet))"

text \<open>
  What one line adds to the matches of a session; every way out of the loop body
  but \<^verbatim>\<open>push\<close> is \<open>None\<close>.
\<close>

definition line_match :: "parser \<Rightarrow> (string \<Rightarrow> string) \<Rightarrow> string \<Rightarrow> string \<Rightarrow> search_match option" where
  "line_match parse lower query line =
     (case parse line of
        None \<Rightarrow> None
      | Some msg \<Rightarrow>
          (case jget_strict msg ''type'' of
             None \<Rightarrow> None
           | Some t \<Rightarrow>
               if t \<noteq> Some (JStr ''user'') \<and> t \<noteq> Some (JStr ''assistant'') then None
               else
                 (case extractTextContent msg of
                    None \<Rightarrow> None
                  | Some txt \<Rightarrow>
                      if js_includes (lower txt) (lower query)
                      then Some \<lparr>match_text = extractSnippet lower txt query,
                                 role = (if t = Some (JStr ''user'') then ''user'' else ''assistant'')\<rparr>
                      else None)))"

text \<open>The loop over the lines of one transcript, which stops at three matches.\<close>

fun match_loop ::
  "parser \<Rightarrow> (string \<Rightarrow> string) \<Rightarrow> string \<Rightarrow> search_match list \<Rightarrow> string list \<Rightarrow> search_match list"
where
  "match_loop parse lower query found [] = found"
| "match_loop parse lower query found (line # rest) =
     (if length found \<ge> 3 then found
      else
        (case line_match parse lower query line of
           None \<Rightarrow> match_loop parse lower query found rest
         | Some m \<Rightarrow> match_loop parse lower query (found @ [m]) rest))"

text \<open>
  What one entry of the file index adds to the results: nothing when the session is
  not in the listing, when the file cannot be read, or when no line matches.
  \<open>sessionMap\<close> is built from the listing, a later session of the same id replacing an
  earlier one; \<open>readFile\<close> gives the bytes at a path, or \<open>None\<close> when it throws.
\<close>

definition entry_result ::
  "parser \<Rightarrow> (string \<Rightarrow> string) \<Rightarrow> session list \<Rightarrow> (string \<Rightarrow> string option) \<Rightarrow> string
   \<Rightarrow> string \<times> string \<Rightarrow> search_result option"
where
  "entry_result parse lower sessions readFile query entry =
     (case entry of (sid, filePath) \<Rightarrow>
        (case map_of (rev (map (\<lambda>s. (session_id s, s)) sessions)) sid of
           None \<Rightarrow> None
         | Some s \<Rightarrow>
             (case readFile filePath of
                None \<Rightarrow> None
              | Some content \<Rightarrow>
                  (let found = match_loop parse lower query [] (conversation_lines content) in
                   if length found > 0
                   then Some \<lparr>sessionId = sid, display = session.display s,
                               projectName = session.projectName s,
                               project = session.project s,
                               timestamp = session.timestamp s, matches = found\<rparr>
                   else None))))"

text \<open>The loop over the file index, in its insertion order, which stops at \<open>maxResults\<close>.\<close>

fun result_loop ::
  "parser \<Rightarrow> (string \<Rightarrow> string) \<Rightarrow> session list \<Rightarrow> (string \<Rightarrow> string option) \<Rightarrow> string
   \<Rightarrow> nat \<Rightarrow> search_result list \<Rightarrow> (string \<times> string) list \<Rightarrow> search_result list"
where
  "result_loop parse lower sessions readFile query maxResults results [] = results"
| "result_loop parse lower sessions readFile query maxResults results (entry # rest) =
     (if length results \<ge> maxResults then results
      else
        (case entry_result parse lower sessions readFile query entry of
           None \<Rightarrow> result_loop parse lower sessions readFile query maxResults results rest
         | Some r \<Rightarrow>
             result_loop parse lower sessions readFile query maxResults (results @ [r]) rest))"

text \<open>
  \<^verbatim>\<open>searchSessions\<close>, given the listing that \<^verbatim>\<open>getSessions()\<close> returns and the file
  index. The sort is stable, by descending timestamp.
\<close>

definition searchSessions ::
  "parser \<Rightarrow> (string \<Rightarrow> string) \<Rightarrow> session list \<Rightarrow> (string \<times> string) list
   \<Rightarrow> (string \<Rightarrow> string option) \<Rightarrow> string \<Rightarrow> nat \<Rightarrow> search_result list"
where
  "searchSessions parse lower sessions fileIndex readFile query maxResults =
     (if query = [] \<or> js_length query < 2 then []
      else sort_key (\<lambda>r. - search_result.timestamp r)
             (result_loop parse lower sessions readFile query maxResults [] fileIndex))"

text \<open>\<^verbatim>\<open>toLowerCase\<close> on ASCII text, for concrete inputs.\<close>

definition ascii_lower :: "string \<Rightarrow> string" where
  "ascii_lower s =
     map (\<lambda>c. if 65 \<le> (of_char c :: nat) \<and> (of_char c :: nat) \<le> 90
              then char_of ((of_char c :: nat) + 32) else c) s"

text \<open>
  Vocabulary for the search theorem: the number of messages that match the query in
  the transcripts that are indexed, listed and readable.
\<close>

definition entry_match_count ::
  "parser \<Rightarrow> (string \<Rightarrow> string) \<Rightarrow> session list \<Rightarrow> (string \<Rightarrow> string option) \<Rightarrow> string
   \<Rightarrow> string \<times> string \<Rightarrow> nat"
where
  "entry_match_count parse lower sessions readFile query entry =
     (case entry of (sid, filePath) \<Rightarrow>
        (case map_of (rev (map (\<lambda>s. (session_id s, s)) sessions)) sid of
           None \<Rightarrow> 0
         | Some s \<Rightarrow>
             (case readFile filePath of
                None \<Rightarrow> 0
              | Some content \<Rightarrow>
                  length (List.map_filter (line_match parse lower query)
                            (conversation_lines content)))))"

section \<open>Session resolution (api/storage.ts, findSessionByTimestamp and getSessions)\<close>

record 't history_entry =
  display :: string
  timestamp :: 't
  project :: string
  sessionId :: "string option"

text \<open>\<^verbatim>\<open>s.endsWith(suffix)\<close>.\<close>

definition endsWith :: "string \<Rightarrow> string \<Rightarrow> bool" where
  "endsWith s suffix =
     (length suffix \<le> length s \<and> drop (length s - length suffix) s = suffix)"

text \<open>
  Node's \<^verbatim>\<open>path.basename(path, ext)\<close> and \<^verbatim>\<open>path.dirname(path)\<close> for POSIX paths.
  The base is the last segment of the path, trailing slashes apart. The extension is
  removed from a base that ends with it and is longer than it; a path that is the
  extension itself gives the empty string.
\<close>

definition last_segment :: "string \<Rightarrow> string" where
  "last_segment path =
     rev (takeWhile (\<lambda>c. c \<noteq> CHR ''/'') (dropWhile (\<lambda>c. c = CHR ''/'') (rev path)))"

definition basename :: "string \<Rightarrow> string \<Rightarrow> string" where
  "basename path ext =
     (if ext \<noteq> [] \<and> path = ext then []
      else
        (let base = last_segment path in
         if ext \<noteq> [] \<and> endsWith base ext \<and> base \<noteq> ext
         then take (length base - length ext) base
         else base))"

definition dirname :: "string \<Rightarrow> string" where
  "dirname path =
     (let body = dropWhile (\<lambda>c. c = CHR ''/'') (rev path);
          dir = rev (dropWhile (\<lambda>c. c = CHR ''/'') (dropWhile (\<lambda>c. c \<noteq> CHR ''/'') body))
      in if dir \<noteq> [] then dir
         else if path \<noteq> [] \<and> hd path = CHR ''/'' then ''/''
         else ''.'')"






section \<open>Token accounting (api/storage.ts, getSessionTokens)\<close>

text \<open>
  A token count is an integer held in a JavaScript number, a double, which is exact on
  the integers of magnitude up to \<open>2 ^ 53\<close>. \<open>None\<close> marks a value outside the integer
  model: a usage field that holds a truthy JSON value other than a number (a string,
  true, an array or an object), on which JavaScript's \<open>+\<close> would coerce or concatenate,
  and a number or a sum of magnitude above \<open>2 ^ 53\<close>, which a double may round.
\<close>

type_synonym jsnum = "int option"




record last_usage =
  input :: jsnum
  cacheCreation :: jsnum
  cacheRead :: jsnum














section \<open>Change watcher (src/watcher.ts, ClaudeWatcher)\<close>

text \<open>
  The state of a watcher and of the part of its environment that can call it back:
  whether \<open>this.watcher\<close> holds an open chokidar handle, the map \<open>debounceTimers\<close> from
  a path to its timer (a JavaScript Map, in insertion order), the timeouts the event
  loop still holds (each with the path its callback closes over), and the identity the
  next \<^verbatim>\<open>setTimeout\<close> returns.
\<close>

record watcher_state =
  watcher :: bool
  debounceTimers :: "(string \<times> nat) list"
  timeouts :: "(nat \<times> string) list"
  nextTimeout :: nat

datatype emission = HistoryChange | SessionChange string | ProjectChange string

text \<open>
  What can happen to a watcher: a call of \<open>start\<close> or \<open>stop\<close>, a change or add event
  that chokidar delivers for a path, and a timeout that the event loop runs.
\<close>

datatype action = Start | Stop | FsEvent string | Timeout nat

definition initial_watcher :: watcher_state where
  "initial_watcher = \<lparr>watcher = False, debounceTimers = [], timeouts = [], nextTimeout = 0\<rparr>"

definition start :: "watcher_state \<Rightarrow> watcher_state" where
  "start s = (if watcher s then s else s\<lparr>watcher := True\<rparr>)"

text \<open>\<^verbatim>\<open>clearTimeout\<close> on the existing timer of the path, then a new timeout.\<close>

definition handleChange :: "watcher_state \<Rightarrow> string \<Rightarrow> watcher_state" where
  "handleChange s path =
     (let cleared = (case map_of (debounceTimers s) path of
                       None \<Rightarrow> timeouts s
                     | Some existing \<Rightarrow> AList.delete existing (timeouts s));
          timer = nextTimeout s
      in s\<lparr>timeouts := AList.update timer path cleared,
           nextTimeout := timer + 1,
           debounceTimers := AList.update path timer (debounceTimers s)\<rparr>)"

definition emitChange :: "string \<Rightarrow> emission list" where
  "emitChange path =
     (if endsWith path ''history.jsonl'' then [HistoryChange]
      else if endsWith path ''.jsonl'' then
        [SessionChange (basename path ''.jsonl''), ProjectChange (basename (dirname path) [])]
      else [])"

text \<open>
  \<open>stop\<close> closes the handle and clears every timer in the map: the event loop drops
  the timeouts whose identity is a value of the map.
\<close>

definition stop :: "watcher_state \<Rightarrow> watcher_state" where
  "stop s =
     s\<lparr>watcher := False,
       timeouts := filter (\<lambda>(t, path). t \<notin> set (map snd (debounceTimers s))) (timeouts s),
       debounceTimers := []\<rparr>"

text \<open>
  One step, with the events it emits. The environment's rules: chokidar calls the
  handlers only of an open handle (\<^verbatim>\<open>close\<close> removes its listeners), and the event
  loop runs a timeout only while it holds it; an action that cannot happen in a state
  leaves it as it is. The callback of a timeout deletes the path from the map and
  emits.
\<close>

fun perform :: "watcher_state \<Rightarrow> action \<Rightarrow> watcher_state \<times> emission list" where
  "perform s Start = (start s, [])"
| "perform s Stop = (stop s, [])"
| "perform s (FsEvent path) = (if watcher s then (handleChange s path, []) else (s, []))"
| "perform s (Timeout t) =
     (case map_of (timeouts s) t of
        None \<Rightarrow> (s, [])
      | Some path \<Rightarrow>
          (s\<lparr>timeouts := AList.delete t (timeouts s),
             debounceTimers := AList.delete path (debounceTimers s)\<rparr>,
           emitChange path))"

fun run :: "watcher_state \<Rightarrow> action list \<Rightarrow> watcher_state \<times> emission list" where
  "run s [] = (s, [])"
| "run s (a # as) =
     (case perform s a of
        (s', es) \<Rightarrow> (case run s' as of (s'', es') \<Rightarrow> (s'', es @ es')))"

text \<open>Every timeout the event loop holds is the timer recorded for its path.\<close>

definition timers_recorded :: "watcher_state \<Rightarrow> bool" where
  "timers_recorded s =
     (\<forall>t path. map_of (timeouts s) t = Some path \<longrightarrow>
                 map_of (debounceTimers s) path = Some t)"

definition stopped :: "watcher_state \<Rightarrow> bool" where
  "stopped s = (\<not> watcher s \<and> timeouts s = [])"

section \<open>Fork reconstruction (web session view, buildBranch)\<close>

text \<open>
  The fields of a \<^verbatim>\<open>ConversationMessage\<close> that \<^verbatim>\<open>buildBranch\<close> reads; \<open>None\<close> is
  an absent or null field. A string is truthy when it is present and not empty.
\<close>

record conversation_message =
  uuid :: "string option"
  parentUuid :: "string option"

definition present :: "string option \<Rightarrow> bool" where
  "present s = (s \<noteq> None \<and> s \<noteq> Some [])"

text \<open>
  One turn of the first loop: a message without a parent joins the roots, any other
  is appended to the children of its parent. (The loop also fills \<open>uuidMap\<close>, which
  nothing reads.)
\<close>

definition group_step ::
  "'a conversation_message_scheme list \<times> (string \<rightharpoonup> 'a conversation_message_scheme list)
   \<Rightarrow> 'a conversation_message_scheme
   \<Rightarrow> 'a conversation_message_scheme list \<times> (string \<rightharpoonup> 'a conversation_message_scheme list)"
where
  "group_step acc msg =
     (case acc of (roots, childrenMap) \<Rightarrow>
        (case parentUuid msg of
           None \<Rightarrow> (roots @ [msg], childrenMap)
         | Some parent \<Rightarrow>
             if parent = [] then (roots @ [msg], childrenMap)
             else
               (let siblings = (case childrenMap parent of None \<Rightarrow> [] | Some xs \<Rightarrow> xs)
                in (roots, childrenMap(parent \<mapsto> siblings @ [msg])))))"

text \<open>\<^verbatim>\<open>current.uuid ? childrenMap.get(current.uuid) : undefined\<close>.\<close>

definition node_children ::
  "(string \<rightharpoonup> 'a conversation_message_scheme list) \<Rightarrow> 'a conversation_message_scheme
   \<Rightarrow> 'a conversation_message_scheme list option"
where
  "node_children childrenMap current =
     (case uuid current of
        None \<Rightarrow> None
      | Some u \<Rightarrow> if u = [] then None else childrenMap u)"

text \<open>
  The child the walk descends to, among the children (not empty) of \<open>current\<close>: the
  first child whose uuid is the recorded choice, if a choice is recorded and such a
  child exists, and the last child otherwise.
\<close>

definition choose_child ::
  "(string \<rightharpoonup> string) \<Rightarrow> 'a conversation_message_scheme
   \<Rightarrow> 'a conversation_message_scheme list \<Rightarrow> 'a conversation_message_scheme"
where
  "choose_child branchChoices current children =
     (let chosen = (case uuid current of
                      None \<Rightarrow> None
                    | Some u \<Rightarrow> if u = [] then None else branchChoices u)
      in if present chosen
         then (case find (\<lambda>c. uuid c = chosen) children of
                 Some c \<Rightarrow> c
               | None \<Rightarrow> last children)
         else last children)"

text \<open>
  The \<^verbatim>\<open>while\<close> loop. Nothing in the code bounds it: on messages whose links form a
  cycle it does not return, which is the value \<open>None\<close> here.
\<close>

partial_function (option) walk ::
  "(string \<rightharpoonup> 'a conversation_message_scheme list) \<Rightarrow> (string \<rightharpoonup> string)
   \<Rightarrow> 'a conversation_message_scheme \<Rightarrow> 'a conversation_message_scheme list option"
where
  "walk childrenMap branchChoices current =
     (case node_children childrenMap current of
        None \<Rightarrow> Some [current]
      | Some children \<Rightarrow>
          if children = [] then Some [current]
          else Option.bind
                 (walk childrenMap branchChoices (choose_child branchChoices current children))
                 (\<lambda>chain. Some (current # chain)))"

declare walk.simps [code]

definition buildBranch ::
  "'a conversation_message_scheme list \<Rightarrow> (string \<rightharpoonup> string)
   \<Rightarrow> 'a conversation_message_scheme list option"
where
  "buildBranch msgs branchChoices =
     (if msgs = [] then Some []
      else
        (case foldl group_step ([], Map.empty) msgs of
           (roots, childrenMap) \<Rightarrow>
             (case roots of
                [] \<Rightarrow> Some msgs
              | root # _ \<Rightarrow> walk childrenMap branchChoices root)))"

text \<open>
  Vocabulary for the fork theorem: the children of a message in file order, and the
  subtree of a message (the message and, step by step, the children of its members).
\<close>

definition children_of ::
  "'a conversation_message_scheme list \<Rightarrow> 'a conversation_message_scheme
   \<Rightarrow> 'a conversation_message_scheme list"
where
  "children_of msgs m =
     (if present (uuid m) then filter (\<lambda>c. parentUuid c = uuid m) msgs else [])"

inductive in_subtree ::
  "'a conversation_message_scheme list \<Rightarrow> 'a conversation_message_scheme
   \<Rightarrow> 'a conversation_message_scheme \<Rightarrow> bool"
  for msgs :: "'a conversation_message_scheme list" and a :: "'a conversation_message_scheme"
where
  self: "in_subtree msgs a a"
| child: "in_subtree msgs a q \<Longrightarrow> c \<in> set (children_of msgs q) \<Longrightarrow> in_subtree msgs a c"

text \<open>The roots and the children map that the first loop of \<^verbatim>\<open>buildBranch\<close> builds.\<close>

definition roots_of ::
  "'a conversation_message_scheme list \<Rightarrow> 'a conversation_message_scheme list"
where
  "roots_of msgs = filter (\<lambda>m. \<not> present (parentUuid m)) msgs"

definition children_map ::
  "'a conversation_message_scheme list \<Rightarrow> (string \<rightharpoonup> 'a conversation_message_scheme list)"
where
  "children_map msgs =
     (\<lambda>u. if u = [] then None
          else (let xs = filter (\<lambda>c. parentUuid c = Some u) msgs
                in if xs = [] then None else Some xs))"

section \<open>Properties of the path codec\<close>

lemma encodeProjectPath_length: "length (encodeProjectPath p) = length p"
  by (induction p) simp_all

lemma encodeProjectPath_nth:
  "i < length p \<Longrightarrow>
   encodeProjectPath p ! i =
     (if p ! i = CHR ''/'' \<or> p ! i = CHR ''.'' then CHR ''-'' else p ! i)"
proof (induction p arbitrary: i)
  case Nil
  then show ?case by simp
next
  case (Cons c cs)
  then show ?case by (cases i) simp_all
qed

text \<open>
  C8. encodeProjectPath is a total function of its input alone (every HOL function
  is): it keeps the length, replaces exactly the characters \<open>/\<close> and \<open>.\<close> by \<open>-\<close> and
  leaves every other character in place; equal inputs give equal outputs; and the two
  distinct inputs \<open>app.name\<close> and \<open>app/name\<close> collide.
\<close>

theorem encodeProjectPath_replaces_and_collides:
  "length (encodeProjectPath p) = length p
   \<and> (\<forall>i < length p. encodeProjectPath p ! i =
         (if p ! i = CHR ''/'' \<or> p ! i = CHR ''.'' then CHR ''-'' else p ! i))
   \<and> (p = q \<longrightarrow> encodeProjectPath p = encodeProjectPath q)
   \<and> ''app.name'' \<noteq> ''app/name''
   \<and> encodeProjectPath ''app.name'' = encodeProjectPath ''app/name''"
  by (simp add: encodeProjectPath_length encodeProjectPath_nth)

theorem encodeProjectPath_replaces_and_collides_witness:
  "length (encodeProjectPath ''/Users/a/app.x'') = 14
   \<and> encodeProjectPath ''/Users/a/app.x'' ! 0 = CHR ''-''
   \<and> encodeProjectPath ''/Users/a/app.x'' ! 1 = CHR ''U''
   \<and> encodeProjectPath ''app.name'' = ''app-name''"
  using encodeProjectPath_replaces_and_collides [of "''/Users/a/app.x''" "''/Users/a/app.x''"]
  by simp

section \<open>Properties of the full read\<close>

lemma conversation_step_value:
  "conversation_step parse acc l =
     (case line_value parse l of
        None \<Rightarrow> acc
      | Some v \<Rightarrow>
          if has_type ''user'' v \<or> has_type ''assistant'' v then acc @ [v]
          else if has_type ''summary'' v then v # acc
          else acc)"
  by (cases "parse l")
     (simp_all add: conversation_step_def line_value_def has_type_def jget_strict_def)

lemma has_type_summary_only:
  "has_type ''summary'' v \<Longrightarrow> \<not> has_type ''user'' v \<and> \<not> has_type ''assistant'' v"
  by (simp add: has_type_def)

lemma conversation_fold:
  "foldl (conversation_step parse) acc ls =
     rev (filter (has_type ''summary'') (List.map_filter (line_value parse) ls)) @ acc @
     filter (\<lambda>v. has_type ''user'' v \<or> has_type ''assistant'' v)
       (List.map_filter (line_value parse) ls)"
proof (induction ls arbitrary: acc)
  case Nil
  then show ?case by (simp add: map_filter_simps)
next
  case (Cons l ls)
  have step: "foldl (conversation_step parse) acc (l # ls)
      = foldl (conversation_step parse) (conversation_step parse acc l) ls"
    by simp
  show ?case
  proof (cases "line_value parse l")
    case None
    then have "conversation_step parse acc l = acc"
      by (simp add: conversation_step_value)
    then show ?thesis
      unfolding step by (simp add: Cons.IH None map_filter_simps)
  next
    case (Some v)
    consider (ua) "has_type ''user'' v \<or> has_type ''assistant'' v"
      | (su) "has_type ''summary'' v" "\<not> (has_type ''user'' v \<or> has_type ''assistant'' v)"
      | (other) "\<not> has_type ''summary'' v" "\<not> (has_type ''user'' v \<or> has_type ''assistant'' v)"
      by blast
    then show ?thesis
    proof cases
      case ua
      then have "\<not> has_type ''summary'' v"
        using has_type_summary_only by blast
      moreover have "conversation_step parse acc l = acc @ [v]"
        using ua Some by (simp add: conversation_step_value)
      ultimately show ?thesis
        unfolding step using ua by (simp add: Cons.IH Some map_filter_simps)
    next
      case su
      then have "conversation_step parse acc l = v # acc"
        using Some by (simp add: conversation_step_value)
      then show ?thesis
        unfolding step using su by (simp add: Cons.IH Some map_filter_simps)
    next
      case other
      then have "conversation_step parse acc l = acc"
        using Some by (simp add: conversation_step_value)
      then show ?thesis
        unfolding step using other by (simp add: Cons.IH Some map_filter_simps)
    qed
  qed
qed

lemma getConversation_example:
  "getConversation JSON_parse
     (File ''{\"type\":\"summary\",\"summary\":\"recap\"}\<newline>{\"type\":\"user\",\"uuid\":\"u1\"}\<newline>{\"type\":\"assistant\",\"uuid\":\"a1\"}\<newline>'')
   = [JObj [(''type'', JStr ''summary''), (''summary'', JStr ''recap'')],
      JObj [(''type'', JStr ''user''), (''uuid'', JStr ''u1'')],
      JObj [(''type'', JStr ''assistant''), (''uuid'', JStr ''a1'')]]"
  by code_simp

lemma getConversation_summary_last:
  "getConversation JSON_parse
     (File ''{\"type\":\"user\"}\<newline>{\"ty\<newline>{\"type\":\"summary\"}\<newline>'')
   = [JObj [(''type'', JStr ''summary'')], JObj [(''type'', JStr ''user'')]]"
  by code_simp

text \<open>
  C5. The full read of a file returns the summary values first (each summary is put
  in front of what is there, so several summaries come out latest first), followed by
  the user and assistant values in file order; a line that does not parse, or is the
  JSON \<open>null\<close>, or has another type, contributes nothing. The three lines summary,
  user, assistant are returned in that order, a summary that is physically last still
  comes first, and a missing or unreadable file gives the empty sequence.
\<close>

theorem getConversation_summaries_first:
  "getConversation parse (File content) =
     rev (filter (has_type ''summary'')
            (List.map_filter (line_value parse) (conversation_lines content))) @
     filter (\<lambda>v. has_type ''user'' v \<or> has_type ''assistant'' v)
       (List.map_filter (line_value parse) (conversation_lines content))
   \<and> getConversation parse Missing = []
   \<and> getConversation parse Unreadable = []
   \<and> getConversation JSON_parse
        (File ''{\"type\":\"summary\",\"summary\":\"recap\"}\<newline>{\"type\":\"user\",\"uuid\":\"u1\"}\<newline>{\"type\":\"assistant\",\"uuid\":\"a1\"}\<newline>'')
      = [JObj [(''type'', JStr ''summary''), (''summary'', JStr ''recap'')],
         JObj [(''type'', JStr ''user''), (''uuid'', JStr ''u1'')],
         JObj [(''type'', JStr ''assistant''), (''uuid'', JStr ''a1'')]]
   \<and> getConversation JSON_parse
        (File ''{\"type\":\"user\"}\<newline>{\"ty\<newline>{\"type\":\"summary\"}\<newline>'')
      = [JObj [(''type'', JStr ''summary'')], JObj [(''type'', JStr ''user'')]]"
proof (intro conjI)
  show "getConversation parse (File content) =
     rev (filter (has_type ''summary'')
            (List.map_filter (line_value parse) (conversation_lines content))) @
     filter (\<lambda>v. has_type ''user'' v \<or> has_type ''assistant'' v)
       (List.map_filter (line_value parse) (conversation_lines content))"
    by (simp add: getConversation_def conversation_fold)
  show "getConversation parse Missing = []"
    by (simp add: getConversation_def)
  show "getConversation parse Unreadable = []"
    by (simp add: getConversation_def)
qed (fact getConversation_example getConversation_summary_last)+

section \<open>Properties of the decoded text\<close>

lemma utf8_matched_le: "utf8_matched a cs \<le> length cs"
  by (auto simp: utf8_matched_def split: list.splits intro: le_trans [OF length_takeWhile_le])

lemma utf8_matched_append:
  assumes h: "Suc (utf8_matched a cs) = utf8_need a"
  shows "utf8_matched a (cs @ r) = utf8_matched a cs"
proof (cases cs)
  case Nil
  then show ?thesis using h by (auto simp: utf8_matched_def split: if_splits)
next
  case (Cons b cs')
  show ?thesis
  proof (cases "utf8_need a \<le> 1 \<or> \<not> utf8_second a (of_char b)")
    case True
    then show ?thesis using Cons by (auto simp: utf8_matched_def)
  next
    case False
    then have m: "utf8_matched a cs = Suc (length (takeWhile is_cont (take (utf8_need a - 2) cs')))"
      using Cons by (simp add: utf8_matched_def)
    with h have "length (takeWhile is_cont (take (utf8_need a - 2) cs')) = utf8_need a - 2"
      by simp
    moreover have "length (takeWhile is_cont (take (utf8_need a - 2) cs'))
        \<le> length (take (utf8_need a - 2) cs')"
      by (rule length_takeWhile_le)
    ultimately have "utf8_need a - 2 \<le> length cs'" by simp
    then have t: "take (utf8_need a - 2) (cs' @ r) = take (utf8_need a - 2) cs'" by simp
    have "utf8_matched a (cs @ r)
        = Suc (length (takeWhile is_cont (take (utf8_need a - 2) (cs' @ r))))"
      using False Cons by (simp add: utf8_matched_def del: take_append)
    then show ?thesis unfolding t m .
  qed
qed

text \<open>A well-formed text is decoded to itself, whatever follows it.\<close>

lemma valid_utf8_append:
  "valid_utf8 p \<Longrightarrow> utf8_text (p @ r) = p @ utf8_text r"
proof (induction p rule: valid_utf8.induct)
  case 1
  then show ?case by simp
next
  case (2 c cs)
  define m where "m = utf8_matched (of_char c) cs"
  from "2.prems" have c: "Suc m = utf8_need (of_char c)" and v: "valid_utf8 (drop m cs)"
    by (simp_all add: m_def Let_def)
  have le: "m \<le> length cs" unfolding m_def by (rule utf8_matched_le)
  have ma: "utf8_matched (of_char c) (cs @ r) = m"
    unfolding m_def by (rule utf8_matched_append) (use c m_def in simp)
  have ih: "utf8_text (drop m cs @ r) = drop m cs @ utf8_text r"
    using "2.IH" [OF refl m_def v] .
  have "utf8_text ((c # cs) @ r) = (c # take m (cs @ r)) @ utf8_text (drop m (cs @ r))"
    using ma c by (simp add: Let_def)
  also have "\<dots> = (c # take m cs) @ utf8_text (drop m cs @ r)" using le by simp
  also have "\<dots> = (c # take m cs) @ drop m cs @ utf8_text r" by (simp only: ih)
  also have "\<dots> = (c # cs) @ utf8_text r" by simp
  finally show ?case .
qed

lemma valid_utf8_text: "valid_utf8 p \<Longrightarrow> utf8_text p = p"
  using valid_utf8_append [of p "[]"] by simp

lemma valid_utf8_ascii_Cons:
  "(of_char c :: nat) < 128 \<Longrightarrow> valid_utf8 (c # cs) = valid_utf8 cs"
  by (simp add: utf8_need_def utf8_matched_def Let_def)

lemma valid_utf8_drop_ascii:
  assumes "valid_utf8 s" and "\<forall>c\<in>set (take n s). (of_char c :: nat) < 128"
  shows "valid_utf8 (drop n s)"
  using assms
proof (induction n arbitrary: s)
  case 0
  then show ?case by simp
next
  case (Suc n)
  show ?case
  proof (cases s)
    case Nil
    then show ?thesis by simp
  next
    case (Cons c cs)
    have c: "(of_char c :: nat) < 128"
      using Suc.prems(2) Cons by simp
    have "valid_utf8 cs"
      using Suc.prems(1) unfolding Cons valid_utf8_ascii_Cons [OF c] .
    moreover have "\<forall>c\<in>set (take n cs). (of_char c :: nat) < 128"
      using Suc.prems(2) Cons by simp
    ultimately have "valid_utf8 (drop n cs)" by (rule Suc.IH)
    then show ?thesis using Cons by simp
  qed
qed

lemma valid_utf8_not_cont: "valid_utf8 (c # cs) \<Longrightarrow> \<not> is_cont c"
  by (auto simp: is_cont_def utf8_need_def Let_def split: if_splits)

section \<open>Properties of the incremental read\<close>

lemma stream_loop_step:
  "stream_loop parse ms b (l # ls) =
     (if line_consumed parse l
      then stream_loop parse
             (ms @ (case line_message parse l of None \<Rightarrow> [] | Some v \<Rightarrow> [v]))
             (b + (length l + 1)) ls
      else (ms, b))"
proof (cases "js_blank l")
  case True
  then show ?thesis by (simp add: line_consumed_def line_message_def)
next
  case False
  show ?thesis
  proof (cases "parse l")
    case None
    then show ?thesis using False by (simp add: line_consumed_def line_value_def)
  next
    case (Some v)
    show ?thesis
    proof (cases "v = JNull")
      case True
      then show ?thesis using False Some
        by (simp add: line_consumed_def line_value_def jget_strict_def)
    next
      case nn: False
      then show ?thesis using False Some
        by (simp add: line_consumed_def line_value_def line_message_def jget_strict_def
            has_type_def)
    qed
  qed
qed

lemma stream_loop_closed:
  "stream_loop parse ms b ls =
     (ms @ List.map_filter (line_message parse) (takeWhile (line_consumed parse) ls),
      b + sum_list (map (\<lambda>l. length l + 1) (takeWhile (line_consumed parse) ls)))"
proof (induction ls arbitrary: ms b)
  case Nil
  then show ?case by (simp add: map_filter_simps)
next
  case (Cons l ls)
  show ?case
    unfolding stream_loop_step
    by (cases "line_message parse l") (simp_all add: Cons.IH map_filter_simps)
qed

lemma storage_stream_loop_step:
  "storage_stream_loop parse ms b (l # ls) =
     (if line_consumed parse l
      then storage_stream_loop parse
             (ms @ (case line_message parse l of None \<Rightarrow> [] | Some v \<Rightarrow> [v]))
             (b + (length l + (if ls \<noteq> [] then 1 else 0))) ls
      else (ms, b))"
proof (cases "js_blank l")
  case True
  then show ?thesis by (simp add: line_consumed_def line_message_def)
next
  case False
  show ?thesis
  proof (cases "parse l")
    case None
    then show ?thesis using False by (simp add: line_consumed_def line_value_def)
  next
    case (Some v)
    show ?thesis
    proof (cases "v = JNull")
      case True
      then show ?thesis using False Some
        by (simp add: line_consumed_def line_value_def jget_strict_def)
    next
      case nn: False
      then show ?thesis using False Some
        by (simp add: line_consumed_def line_value_def line_message_def jget_strict_def
            has_type_def)
    qed
  qed
qed

lemma line_bytes_pos: "xs \<noteq> [] \<Longrightarrow> 0 < sum_list (map (\<lambda>l. length l + 1) xs)"
  by (cases xs) simp_all

lemma storage_stream_loop_closed:
  "storage_stream_loop parse ms b ls =
     (ms @ List.map_filter (line_message parse) (takeWhile (line_consumed parse) ls),
      b + (sum_list (map (\<lambda>l. length l + 1) (takeWhile (line_consumed parse) ls))
           - (if ls \<noteq> [] \<and> takeWhile (line_consumed parse) ls = ls then 1 else 0)))"
proof (induction ls arbitrary: ms b)
  case Nil
  then show ?case by (simp add: map_filter_simps)
next
  case (Cons l ls)
  show ?case
  proof (cases "line_consumed parse l")
    case False
    then show ?thesis
      by (simp add: storage_stream_loop_step map_filter_simps del: storage_stream_loop.simps)
  next
    case True
    show ?thesis
    proof (cases "ls = []")
      case True
      then show ?thesis using \<open>line_consumed parse l\<close>
        by (cases "line_message parse l")
           (simp_all add: storage_stream_loop_step map_filter_simps
              del: storage_stream_loop.simps(2))
    next
      case False
      have "takeWhile (line_consumed parse) ls = ls \<Longrightarrow>
            0 < sum_list (map (\<lambda>l. length l + 1) (takeWhile (line_consumed parse) ls))"
      proof -
        assume tw: "takeWhile (line_consumed parse) ls = ls"
        show "0 < sum_list (map (\<lambda>l. length l + 1) (takeWhile (line_consumed parse) ls))"
          unfolding tw using False by (rule line_bytes_pos)
      qed
      then show ?thesis using \<open>line_consumed parse l\<close> False
        by (cases "line_message parse l")
           (auto simp add: storage_stream_loop_step Cons.IH map_filter_simps
              simp del: storage_stream_loop.simps)
    qed
  qed
qed

lemma getConversationStream_closed:
  assumes "fromOffset < length content"
  shows "getConversationStream parse (File content) fromOffset =
     \<lparr>messages = List.map_filter (line_message parse)
          (takeWhile (line_consumed parse) (readline_lines (utf8_text (drop fromOffset content)))),
      nextOffset = min (length content)
          (fromOffset + sum_list (map (\<lambda>l. length l + 1)
             (takeWhile (line_consumed parse) (readline_lines (utf8_text (drop fromOffset content))))))\<rparr>"
proof -
  have n: "\<not> length content \<le> fromOffset"
    using assms by simp
  obtain ms b where
    sl: "stream_loop parse [] 0 (readline_lines (utf8_text (drop fromOffset content))) = (ms, b)"
    by (cases "stream_loop parse [] 0 (readline_lines (utf8_text (drop fromOffset content)))")
  have g: "getConversationStream parse (File content) fromOffset =
      \<lparr>messages = ms,
       nextOffset = (if fromOffset + b > length content then length content
                     else fromOffset + b)\<rparr>"
    by (simp only: getConversationStream_def file_state.case Let_def n if_False sl prod.case)
  have m: "(if fromOffset + b > length content then length content else fromOffset + b)
      = min (length content) (fromOffset + b)"
    by (simp add: min_def)
  from sl have e: "(ms, b) = ([] @ List.map_filter (line_message parse)
          (takeWhile (line_consumed parse) (readline_lines (utf8_text (drop fromOffset content)))),
       0 + sum_list (map (\<lambda>l. length l + 1)
             (takeWhile (line_consumed parse) (readline_lines (utf8_text (drop fromOffset content))))))"
    by (simp only: stream_loop_closed)
  show ?thesis
    unfolding g m using e by (simp only: prod.inject append_Nil add_0)
qed

lemma split_nl_not_Nil: "split_nl s \<noteq> []"
  by (cases s) (simp_all split: list.splits)

lemma storage_getConversationStream_closed:
  assumes "fromOffset < length content" and "js_drop fromOffset (utf8_text content) \<noteq> []"
  shows "storage_getConversationStream parse (File content) fromOffset =
     \<lparr>messages = List.map_filter (line_message parse)
          (takeWhile (line_consumed parse) (split_nl (js_drop fromOffset (utf8_text content)))),
      nextOffset = fromOffset +
          (sum_list (map (\<lambda>l. length l + 1)
             (takeWhile (line_consumed parse) (split_nl (js_drop fromOffset (utf8_text content)))))
           - (if takeWhile (line_consumed parse) (split_nl (js_drop fromOffset (utf8_text content)))
                 = split_nl (js_drop fromOffset (utf8_text content)) then 1 else 0))\<rparr>"
proof -
  have n: "\<not> length content \<le> fromOffset"
    using assms(1) by simp
  obtain ms b where
    sl: "storage_stream_loop parse [] 0 (split_nl (js_drop fromOffset (utf8_text content))) = (ms, b)"
    by (cases "storage_stream_loop parse [] 0 (split_nl (js_drop fromOffset (utf8_text content)))")
  have g: "storage_getConversationStream parse (File content) fromOffset =
      \<lparr>messages = ms, nextOffset = fromOffset + b\<rparr>"
    by (simp only: storage_getConversationStream_def file_state.case Let_def n if_False
          assms(2) sl prod.case)
  have ne: "(split_nl (js_drop fromOffset (utf8_text content)) \<noteq> [] \<and> P) = P" for P
    using split_nl_not_Nil by simp
  from sl have e: "(ms, b) = ([] @ List.map_filter (line_message parse)
          (takeWhile (line_consumed parse) (split_nl (js_drop fromOffset (utf8_text content)))),
       0 + (sum_list (map (\<lambda>l. length l + 1)
             (takeWhile (line_consumed parse) (split_nl (js_drop fromOffset (utf8_text content)))))
           - (if takeWhile (line_consumed parse) (split_nl (js_drop fromOffset (utf8_text content)))
                 = split_nl (js_drop fromOffset (utf8_text content)) then 1 else 0)))"
    by (simp only: storage_stream_loop_closed ne)
  show ?thesis
    unfolding g using e by (simp only: prod.inject append_Nil add_0)
qed

lemma not_cont_ascii: "(of_char c :: nat) < 128 \<Longrightarrow> \<not> is_cont c"
  by (simp add: is_cont_def)

lemma js_drop_ascii:
  assumes "\<forall>c\<in>set (take n s). (of_char c :: nat) < 128"
    and "n < length s \<longrightarrow> \<not> is_cont (s ! n)"
  shows "js_drop n s = drop n s"
  using assms
proof (induction n arbitrary: s)
  case 0
  then show ?case by simp
next
  case (Suc n)
  show ?case
  proof (cases s)
    case Nil
    then show ?thesis by simp
  next
    case (Cons c cs)
    have c: "(of_char c :: nat) < 128"
      using Suc.prems(1) Cons by simp
    then have u: "units_of c = 1"
      by (simp add: units_of_def is_cont_def)
    have dw: "dropWhile is_cont cs = cs"
    proof (cases cs)
      case Nil
      then show ?thesis by simp
    next
      case (Cons d ds)
      have "\<not> is_cont d"
      proof (cases n)
        case 0
        then show ?thesis using Suc.prems(2) \<open>s = c # cs\<close> Cons by simp
      next
        case (Suc m)
        then have "(of_char d :: nat) < 128"
          using Suc.prems(1) \<open>s = c # cs\<close> Cons by simp
        then show ?thesis by (rule not_cont_ascii)
      qed
      then show ?thesis using Cons by simp
    qed
    have "js_drop n cs = drop n cs"
      using Suc.prems Cons by (intro Suc.IH) auto
    then show ?thesis
      using Cons u dw by simp
  qed
qed

text \<open>
  On a well-formed file whose bytes before the offset are ASCII, the slice of the decoded
  text at code unit \<open>n\<close> is the file from byte \<open>n\<close> on.
\<close>

lemma js_drop_valid_ascii:
  assumes v: "valid_utf8 s" and a: "\<forall>c\<in>set (take n s). (of_char c :: nat) < 128"
  shows "js_drop n (utf8_text s) = drop n s"
proof -
  have vd: "valid_utf8 (drop n s)"
    using v a by (rule valid_utf8_drop_ascii)
  have b: "n < length s \<longrightarrow> \<not> is_cont (s ! n)"
  proof
    assume n: "n < length s"
    then have "drop n s = s ! n # drop (Suc n) s"
      by (rule Cons_nth_drop_Suc [symmetric])
    with vd show "\<not> is_cont (s ! n)"
      by (simp add: valid_utf8_not_cont del: valid_utf8.simps)
  qed
  show ?thesis
    unfolding valid_utf8_text [OF v] using a b by (rule js_drop_ascii)
qed

lemma getConversationStream_example:
  "getConversationStream JSON_parse
     (File ''{\"type\":\"user\"}\<newline>{\"type\":\"summary\"}\<newline>\<newline>{\"ty'') 0
   = \<lparr>messages = [JObj [(''type'', JStr ''user'')]], nextOffset = 36\<rparr>"
  by code_simp

lemma storage_getConversationStream_example:
  "storage_getConversationStream JSON_parse
     (File ''{\"type\":\"user\"}\<newline>{\"type\":\"summary\"}\<newline>\<newline>{\"ty'') 0
   = \<lparr>messages = [JObj [(''type'', JStr ''user'')]], nextOffset = 36\<rparr>"
  by code_simp

text \<open>
  C1, as the code has it. For an existing file and an offset below its size, the
  incremental reader passes the lines of the decoded text in order as long as each is
  blank or parses to a value other than null, and stops at the first line that is
  neither. Every line passed advances the offset, whatever its type: blank lines and
  well-formed lines of other types (summary, file-history-snapshot) count as well. The
  messages are the user and assistant values among the lines passed. Where the bytes
  from the offset on are well-formed UTF-8 and end their lines with line feeds only,
  the offset returned is the start offset plus the bytes of the lines passed, each with
  its line feed, capped at the file size. On a well-formed file whose bytes before the
  offset are ASCII, the class passes the pieces between line feeds in the same way
  and returns the start offset plus the same sum, less the line feed of the last piece
  when every piece was passed.
\<close>

theorem incremental_read_passes_parsed_prefix:
  assumes "fromOffset < length content"
  shows "messages (getConversationStream parse (File content) fromOffset) =
           List.map_filter (line_message parse)
             (takeWhile (line_consumed parse)
                (readline_lines (utf8_text (drop fromOffset content))))
       \<and> (valid_utf8 (drop fromOffset content) \<and> lf_only (drop fromOffset content) \<longrightarrow>
            nextOffset (getConversationStream parse (File content) fromOffset) =
              min (length content)
                (fromOffset + line_bytes
                   (takeWhile (line_consumed parse)
                      (readline_lines (drop fromOffset content)))))
       \<and> (valid_utf8 content \<and> (\<forall>c\<in>set (take fromOffset content). (of_char c :: nat) < 128) \<longrightarrow>
            messages (storage_getConversationStream parse (File content) fromOffset) =
              List.map_filter (line_message parse)
                (takeWhile (line_consumed parse) (split_nl (drop fromOffset content)))
          \<and> nextOffset (storage_getConversationStream parse (File content) fromOffset) =
              fromOffset +
                (line_bytes
                   (takeWhile (line_consumed parse) (split_nl (drop fromOffset content)))
                 - (if takeWhile (line_consumed parse) (split_nl (drop fromOffset content))
                       = split_nl (drop fromOffset content) then 1 else 0)))"
proof (intro conjI impI)
  show "messages (getConversationStream parse (File content) fromOffset) =
           List.map_filter (line_message parse)
             (takeWhile (line_consumed parse)
                (readline_lines (utf8_text (drop fromOffset content))))"
    by (simp only: getConversationStream_closed [OF assms] stream_result.simps)
next
  assume "valid_utf8 (drop fromOffset content) \<and> lf_only (drop fromOffset content)"
  then have t: "utf8_text (drop fromOffset content) = drop fromOffset content"
    by (simp only: valid_utf8_text)
  show "nextOffset (getConversationStream parse (File content) fromOffset) =
           min (length content)
             (fromOffset + line_bytes
                (takeWhile (line_consumed parse) (readline_lines (drop fromOffset content))))"
    by (simp only: getConversationStream_closed [OF assms] stream_result.simps t)
next
  assume h: "valid_utf8 content \<and> (\<forall>c\<in>set (take fromOffset content). (of_char c :: nat) < 128)"
  then have sl: "js_drop fromOffset (utf8_text content) = drop fromOffset content"
    by (intro js_drop_valid_ascii) simp_all
  have ne: "js_drop fromOffset (utf8_text content) \<noteq> []"
    unfolding sl using assms by simp
  show "messages (storage_getConversationStream parse (File content) fromOffset) =
              List.map_filter (line_message parse)
                (takeWhile (line_consumed parse) (split_nl (drop fromOffset content)))"
    by (simp only: storage_getConversationStream_closed [OF assms ne] stream_result.simps sl)
  show "nextOffset (storage_getConversationStream parse (File content) fromOffset) =
              fromOffset +
                (line_bytes
                   (takeWhile (line_consumed parse) (split_nl (drop fromOffset content)))
                 - (if takeWhile (line_consumed parse) (split_nl (drop fromOffset content))
                       = split_nl (drop fromOffset content) then 1 else 0))"
    by (simp only: storage_getConversationStream_closed [OF assms ne] stream_result.simps sl)
qed

theorem incremental_read_passes_parsed_prefix_witness:
  "(0::nat) < length ''{\"type\":\"user\"}\<newline>{\"type\":\"summary\"}\<newline>\<newline>{\"ty''
   \<and> valid_utf8 ''{\"type\":\"user\"}\<newline>{\"type\":\"summary\"}\<newline>\<newline>{\"ty''
   \<and> lf_only ''{\"type\":\"user\"}\<newline>{\"type\":\"summary\"}\<newline>\<newline>{\"ty''
   \<and> List.map_filter (line_message JSON_parse)
        (takeWhile (line_consumed JSON_parse)
           (readline_lines (utf8_text
              (drop 0 ''{\"type\":\"user\"}\<newline>{\"type\":\"summary\"}\<newline>\<newline>{\"ty''))))
      = [JObj [(''type'', JStr ''user'')]]
   \<and> min (length ''{\"type\":\"user\"}\<newline>{\"type\":\"summary\"}\<newline>\<newline>{\"ty'')
        (0 + line_bytes
           (takeWhile (line_consumed JSON_parse)
              (readline_lines
                 (drop 0 ''{\"type\":\"user\"}\<newline>{\"type\":\"summary\"}\<newline>\<newline>{\"ty''))))
      = 36
   \<and> List.map_filter (line_message JSON_parse)
        (takeWhile (line_consumed JSON_parse)
           (split_nl (drop 0 ''{\"type\":\"user\"}\<newline>{\"type\":\"summary\"}\<newline>\<newline>{\"ty'')))
      = [JObj [(''type'', JStr ''user'')]]"
proof -
  define c where "c = ''{\"type\":\"user\"}\<newline>{\"type\":\"summary\"}\<newline>\<newline>{\"ty''"
  have h: "(0::nat) < length c"
    unfolding c_def by simp
  have v: "valid_utf8 c"
    unfolding c_def by code_simp
  have l: "lf_only c"
    unfolding c_def by code_simp
  have a: "\<forall>x\<in>set (take 0 c). (of_char x :: nat) < 128"
    by simp
  have v0: "valid_utf8 (drop 0 c) \<and> lf_only (drop 0 c)"
    using v l by simp
  note t = incremental_read_passes_parsed_prefix [OF h, of JSON_parse]
  have m: "List.map_filter (line_message JSON_parse)
        (takeWhile (line_consumed JSON_parse) (readline_lines (utf8_text (drop 0 c))))
      = [JObj [(''type'', JStr ''user'')]]"
    using t [THEN conjunct1]
    by (simp only: c_def getConversationStream_example stream_result.simps)
  have n: "min (length c)
        (0 + line_bytes (takeWhile (line_consumed JSON_parse) (readline_lines (drop 0 c))))
      = 36"
    using t [THEN conjunct2, THEN conjunct1, THEN mp, OF v0]
    by (simp only: c_def getConversationStream_example stream_result.simps)
  have s: "List.map_filter (line_message JSON_parse)
        (takeWhile (line_consumed JSON_parse) (split_nl (drop 0 c)))
      = [JObj [(''type'', JStr ''user'')]]"
    using t [THEN conjunct2, THEN conjunct2, THEN mp, OF conjI [OF v a], THEN conjunct1]
    by (simp only: c_def storage_getConversationStream_example stream_result.simps)
  show ?thesis
    unfolding c_def [symmetric] using h v l m n s by (intro conjI)
qed

text \<open>
  The claim as stated fails on a file that holds one summary line: the offset moves
  past the line, which is no user or assistant line and yields no message.
\<close>

theorem getConversationStream_advances_past_summary:
  "nextOffset (getConversationStream JSON_parse (File ''{\"type\":\"summary\"}\<newline>'') 0) = 19
   \<and> messages (getConversationStream JSON_parse (File ''{\"type\":\"summary\"}\<newline>'') 0) = []
   \<and> line_message JSON_parse ''{\"type\":\"summary\"}'' = None"
  by code_simp

section \<open>Resuming the incremental read\<close>

lemma line_sep_length: "line_sep (c # cs) \<Longrightarrow> 2 \<le> length cs"
  by (cases cs; cases "tl cs") (auto simp: line_sep_def)

lemma line_sep_append_LF: "line_sep (c # cs @ LF # r) = line_sep (c # cs)"
  by (cases cs; cases "tl cs") (auto simp: line_sep_def)

lemma readline_from_append_LF:
  "readline_from cur (p @ LF # r) = readline_from cur (p @ [LF]) @ readline_from [] r"
proof (induction cur p rule: readline_from.induct)
  case (1 cur)
  then show ?case by simp
next
  case (2 cur c cs)
  show ?case
  proof (cases "c = LF")
    case True
    then show ?thesis using 2(1) by simp
  next
    case nlf: False
    show ?thesis
    proof (cases "c = CR")
      case cr: True
      show ?thesis
      proof (cases cs)
        case Nil
        then show ?thesis using cr by simp
      next
        case (Cons d ds)
        show ?thesis
        proof (cases "d = LF")
          case True
          then show ?thesis using cr Cons 2(2) by simp
        next
          case False
          then show ?thesis using cr Cons 2(3) by simp
        qed
      qed
    next
      case ncr: False
      show ?thesis
      proof (cases "line_sep (c # cs)")
        case True
        have d: "drop 2 (cs @ x) = drop 2 cs @ x" for x
          using line_sep_length [OF True] by simp
        have s: "line_sep (c # cs @ x) " if "x = LF # y" for x y
          using True line_sep_append_LF [of c cs y] that by simp
        have "readline_from cur ((c # cs) @ LF # r) = cur # readline_from [] (drop 2 cs @ LF # r)"
          using nlf ncr s [of "LF # r" r] d [of "LF # r"] by simp
        moreover have "readline_from cur ((c # cs) @ [LF]) = cur # readline_from [] (drop 2 cs @ [LF])"
          using nlf ncr s [of "[LF]" "[]"] d [of "[LF]"] by simp
        ultimately show ?thesis
          using 2(4) [OF nlf ncr True] by simp
      next
        case False
        have s: "\<not> line_sep (c # cs @ x) " if "x = LF # y" for x y
          using False line_sep_append_LF [of c cs y] that by simp
        show ?thesis
          using nlf ncr s [of "LF # r" r] s [of "[LF]" "[]"] 2(5) [OF nlf ncr False] by simp
      qed
    qed
  qed
qed

lemma readline_from_bytes_le:
  "line_bytes (readline_from cur (p @ [LF])) \<le> length cur + length p + 1"
proof (induction cur p rule: readline_from.induct)
  case (1 cur)
  then show ?case by simp
next
  case (2 cur c cs)
  show ?case
  proof (cases "c = LF")
    case True
    then show ?thesis using 2(1) by simp
  next
    case nlf: False
    show ?thesis
    proof (cases "c = CR")
      case cr: True
      show ?thesis
      proof (cases cs)
        case Nil
        then show ?thesis using cr by simp
      next
        case (Cons d ds)
        show ?thesis
        proof (cases "d = LF")
          case True
          then show ?thesis using cr Cons 2(2) by simp
        next
          case False
          then show ?thesis using cr Cons 2(3) by simp
        qed
      qed
    next
      case ncr: False
      show ?thesis
      proof (cases "line_sep (c # cs)")
        case True
        have d: "drop 2 (cs @ [LF]) = drop 2 cs @ [LF]"
          using line_sep_length [OF True] by simp
        have s: "line_sep (c # cs @ [LF])"
          using True line_sep_append_LF [of c cs "[]"] by simp
        have "readline_from cur ((c # cs) @ [LF]) = cur # readline_from [] (drop 2 cs @ [LF])"
          using nlf ncr s d by simp
        then show ?thesis
          using 2(4) [OF nlf ncr True] by simp
      next
        case False
        have s: "\<not> line_sep (c # cs @ [LF])"
          using False line_sep_append_LF [of c cs "[]"] by simp
        show ?thesis
          using nlf ncr s 2(5) [OF nlf ncr False] by simp
      qed
    qed
  qed
qed


lemma line_bytes_takeWhile_less:
  assumes "takeWhile P xs \<noteq> xs"
  shows "line_bytes (takeWhile P xs) < line_bytes xs"
proof -
  have ne: "dropWhile P xs \<noteq> []"
    using assms by (metis append_Nil2 takeWhile_dropWhile_id)
  have "line_bytes xs = line_bytes (takeWhile P xs) + line_bytes (dropWhile P xs)"
    by (metis map_append sum_list.append takeWhile_dropWhile_id)
  then show ?thesis
    using line_bytes_pos [OF ne] by simp
qed

lemma map_filter_append:
  "List.map_filter f (xs @ ys) = List.map_filter f xs @ List.map_filter f ys"
  by (simp add: List.map_filter_def)

lemma resume_mid:
  assumes N: "0 < N" "N < length content"
    and lf: "content ! (N - 1) = LF"
    and v: "valid_utf8 (take N content)"
    and first: "nextOffset (getConversationStream parse (File (take N content)) 0) = N"
  shows "messages (getConversationStream parse (File content) 0) =
           messages (getConversationStream parse (File (take N content)) 0) @
           messages (getConversationStream parse (File content) N)
       \<and> nextOffset (getConversationStream parse (File content) 0) =
           nextOffset (getConversationStream parse (File content) N)"
proof -
  define p where "p = take (N - 1) content"
  define r where "r = utf8_text (drop N content)"
  have tk: "take N content = p @ [LF]"
  proof -
    have "take N content = take (Suc (N - 1)) content" using N by simp
    also have "\<dots> = take (N - 1) content @ [content ! (N - 1)]"
      using N by (intro take_Suc_conv_app_nth) simp
    finally show ?thesis using lf by (simp add: p_def)
  qed
  have "utf8_text (take N content @ drop N content) = take N content @ r"
    unfolding r_def using v by (rule valid_utf8_append)
  then have "utf8_text content = take N content @ r"
    by (simp only: append_take_drop_id)
  then have ct: "utf8_text content = p @ LF # r"
    unfolding tk by simp
  have pt: "utf8_text (p @ [LF]) = p @ [LF]"
    using v unfolding tk by (rule valid_utf8_text)
  have lenp: "Suc (length p) = N"
    using N by (simp add: p_def)
  define ls1 where "ls1 = readline_lines (p @ [LF])"
  define ls2 where "ls2 = readline_lines r"
  have lines: "readline_lines (utf8_text content) = ls1 @ ls2"
    unfolding ls1_def ls2_def readline_lines_def ct by (rule readline_from_append_LF)
  have b1: "line_bytes ls1 \<le> N"
    using readline_from_bytes_le [of "[]" p] lenp by (simp add: ls1_def readline_lines_def)
  have pos: "0 < length (take N content)" using N by simp
  have f: "getConversationStream parse (File (take N content)) 0 =
      \<lparr>messages = List.map_filter (line_message parse) (takeWhile (line_consumed parse) ls1),
       nextOffset = min N (line_bytes (takeWhile (line_consumed parse) ls1))\<rparr>"
    using getConversationStream_closed [OF pos, of parse] N
    by (simp add: tk pt ls1_def lenp)
  have "min N (line_bytes (takeWhile (line_consumed parse) ls1)) = N"
    using first unfolding f by simp
  then have ge: "N \<le> line_bytes (takeWhile (line_consumed parse) ls1)"
    by simp
  have all: "takeWhile (line_consumed parse) ls1 = ls1"
  proof (rule ccontr)
    assume "takeWhile (line_consumed parse) ls1 \<noteq> ls1"
    from line_bytes_takeWhile_less [OF this] b1 ge show False by simp
  qed
  then have allc: "\<forall>x\<in>set ls1. line_consumed parse x"
    by (simp add: takeWhile_eq_all_conv)
  have bN: "line_bytes ls1 = N"
    using ge b1 all by simp
  have tw: "takeWhile (line_consumed parse) (ls1 @ ls2) = ls1 @ takeWhile (line_consumed parse) ls2"
    using allc by (simp add: takeWhile_append2)
  have pos0: "0 < length content" using N by linarith
  have full: "getConversationStream parse (File content) 0 =
      \<lparr>messages = List.map_filter (line_message parse) ls1 @
                   List.map_filter (line_message parse) (takeWhile (line_consumed parse) ls2),
       nextOffset = min (length content) (N + line_bytes (takeWhile (line_consumed parse) ls2))\<rparr>"
    using getConversationStream_closed [OF pos0, of parse] bN
    by (simp add: lines tw map_filter_append)
  have snd: "getConversationStream parse (File content) N =
      \<lparr>messages = List.map_filter (line_message parse) (takeWhile (line_consumed parse) ls2),
       nextOffset = min (length content) (N + line_bytes (takeWhile (line_consumed parse) ls2))\<rparr>"
    using getConversationStream_closed [OF N(2), of parse]
    by (simp add: ls2_def r_def)
  show ?thesis
    unfolding full snd f by (simp add: all)
qed

lemma getConversationStream_split_example:
  "nextOffset (getConversationStream JSON_parse
     (File (take 16 ''{\"type\":\"user\"}\<newline>{\"type\":\"assistant\"}\<newline>'')) 0) = 16"
  by code_simp

text \<open>
  C2, as the code has it. Let a transcript have grown from its first \<open>N\<close> bytes to
  \<open>content\<close>, with \<open>N\<close> at a line boundary (0, or just after a line feed), let the first
  \<open>N\<close> bytes be well-formed UTF-8, and let the incremental read of the first \<open>N\<close> bytes
  from offset 0 have consumed up to \<open>N\<close>. Then that read followed by the read of the
  whole file from \<open>N\<close> gives the messages of one read of the whole file from 0, in the
  same order, and both end at the same offset.
\<close>

theorem getConversationStream_resumable:
  assumes "N \<le> length content"
    and "N = 0 \<or> content ! (N - 1) = LF"
    and "valid_utf8 (take N content)"
    and "nextOffset (getConversationStream parse (File (take N content)) 0) = N"
  shows "messages (getConversationStream parse (File content) 0) =
           messages (getConversationStream parse (File (take N content)) 0) @
           messages (getConversationStream parse (File content) N)
       \<and> nextOffset (getConversationStream parse (File content) 0) =
           nextOffset (getConversationStream parse (File content) N)"
proof (cases "N = 0")
  case True
  then show ?thesis
    by (simp add: getConversationStream_def)
next
  case False
  show ?thesis
  proof (cases "N = length content")
    case True
    have "getConversationStream parse (File content) N = \<lparr>messages = [], nextOffset = N\<rparr>"
      using True by (simp add: getConversationStream_def)
    then show ?thesis
      using assms(4) True by simp
  next
    case ne: False
    have "0 < N" "N < length content"
      using False ne assms(1) by simp_all
    moreover have "content ! (N - 1) = LF"
      using False assms(2) by simp
    ultimately show ?thesis
      using assms(3,4) by (rule resume_mid)
  qed
qed

theorem getConversationStream_resumable_witness:
  "(16::nat) \<le> length ''{\"type\":\"user\"}\<newline>{\"type\":\"assistant\"}\<newline>''
   \<and> ''{\"type\":\"user\"}\<newline>{\"type\":\"assistant\"}\<newline>'' ! (16 - 1) = LF
   \<and> valid_utf8 (take 16 ''{\"type\":\"user\"}\<newline>{\"type\":\"assistant\"}\<newline>'')
   \<and> nextOffset (getConversationStream JSON_parse
         (File (take 16 ''{\"type\":\"user\"}\<newline>{\"type\":\"assistant\"}\<newline>'')) 0) = 16
   \<and> messages (getConversationStream JSON_parse
         (File ''{\"type\":\"user\"}\<newline>{\"type\":\"assistant\"}\<newline>'') 0) =
       messages (getConversationStream JSON_parse
         (File (take 16 ''{\"type\":\"user\"}\<newline>{\"type\":\"assistant\"}\<newline>'')) 0) @
       messages (getConversationStream JSON_parse
         (File ''{\"type\":\"user\"}\<newline>{\"type\":\"assistant\"}\<newline>'') 16)
   \<and> nextOffset (getConversationStream JSON_parse
         (File ''{\"type\":\"user\"}\<newline>{\"type\":\"assistant\"}\<newline>'') 0) =
       nextOffset (getConversationStream JSON_parse
         (File ''{\"type\":\"user\"}\<newline>{\"type\":\"assistant\"}\<newline>'') 16)"
proof -
  have h1: "(16::nat) \<le> length ''{\"type\":\"user\"}\<newline>{\"type\":\"assistant\"}\<newline>''"
    by simp
  have h2: "(16::nat) = 0 \<or>
      ''{\"type\":\"user\"}\<newline>{\"type\":\"assistant\"}\<newline>'' ! (16 - 1) = LF"
    by simp
  have h2': "''{\"type\":\"user\"}\<newline>{\"type\":\"assistant\"}\<newline>'' ! (16 - 1) = LF"
    by simp
  have h3: "valid_utf8 (take 16 ''{\"type\":\"user\"}\<newline>{\"type\":\"assistant\"}\<newline>'')"
    by code_simp
  note h4 = getConversationStream_split_example
  show ?thesis
    using h1 h2' h3 h4 getConversationStream_resumable [OF h1 h2 h3 h4]
    by (intro conjI) simp_all
qed

text \<open>
  The claim as stated fails on a transcript whose first line holds a byte that is no
  UTF-8 (FF, inside a string, so that the line still parses): the reader counts the
  three bytes of the U+FFFD it was decoded to. The first 24 bytes are the first line
  with its line feed, and their read ends at 24, the size of the prefix; the read of
  the whole file from 0 ends at 42 and the read from 24 at 40.
\<close>

theorem getConversationStream_resume_ill_formed:
  "(24::nat) \<le> length (''{\"type\":\"user\",\"x\":\"'' @ [CHR 0xFF] @
        ''\"}\<newline>{\"type\":\"user\"}\<newline>{\"'')
   \<and> (''{\"type\":\"user\",\"x\":\"'' @ [CHR 0xFF] @
        ''\"}\<newline>{\"type\":\"user\"}\<newline>{\"'') ! (24 - 1) = LF
   \<and> nextOffset (getConversationStream JSON_parse
         (File (take 24 (''{\"type\":\"user\",\"x\":\"'' @ [CHR 0xFF] @
            ''\"}\<newline>{\"type\":\"user\"}\<newline>{\"''))) 0) = 24
   \<and> nextOffset (getConversationStream JSON_parse
         (File (''{\"type\":\"user\",\"x\":\"'' @ [CHR 0xFF] @
            ''\"}\<newline>{\"type\":\"user\"}\<newline>{\"'')) 0) = 42
   \<and> nextOffset (getConversationStream JSON_parse
         (File (''{\"type\":\"user\",\"x\":\"'' @ [CHR 0xFF] @
            ''\"}\<newline>{\"type\":\"user\"}\<newline>{\"'')) 24) = 40"
  by code_simp

section \<open>The two incremental readers compared\<close>

lemma js_blank_Nil: "js_blank []"
  by (simp add: js_blank.simps)

lemma line_consumed_Nil: "line_consumed parse []"
  by (simp add: line_consumed_def js_blank_Nil)

lemma line_message_Nil: "line_message parse [] = None"
  by (simp add: line_message_def js_blank_Nil)

lemma split_nl_bytes: "line_bytes (split_nl s) = length s + 1"
proof (induction s)
  case Nil
  then show ?case by simp
next
  case (Cons c cs)
  then show ?case
    by (cases "split_nl cs") (simp_all add: split_nl_not_Nil)
qed

lemma readline_from_split_nl:
  assumes "lf_only s"
  shows "readline_from cur s =
     (case split_nl s of
        [] \<Rightarrow> []
      | l # ls \<Rightarrow> if last ((cur @ l) # ls) = [] then butlast ((cur @ l) # ls)
                  else (cur @ l) # ls)"
  using assms
proof (induction s arbitrary: cur)
  case Nil
  then show ?case by simp
next
  case (Cons c cs)
  have nocr: "lf_only cs" and c: "c \<noteq> CR" and ns: "\<not> line_sep (c # cs)"
    using Cons.prems by auto
  obtain l ls where sp: "split_nl cs = l # ls"
    using split_nl_not_Nil by (cases "split_nl cs") auto
  show ?case
  proof (cases "c = LF")
    case True
    then show ?thesis
      using Cons.IH [OF nocr, of "[]"] sp by simp
  next
    case False
    then show ?thesis
      using Cons.IH [OF nocr, of "cur @ [c]"] sp c ns by simp
  qed
qed

lemma readline_lines_split_nl:
  assumes "lf_only s"
  shows "readline_lines s =
     (if last (split_nl s) = [] then butlast (split_nl s) else split_nl s)"
proof -
  obtain l ls where sp: "split_nl s = l # ls"
    using split_nl_not_Nil by (cases "split_nl s") auto
  show ?thesis
    unfolding readline_lines_def readline_from_split_nl [OF assms] sp by simp
qed

lemma readers_agree_core:
  assumes off: "fromOffset < length content"
    and sl: "js_drop fromOffset (utf8_text content) = drop fromOffset content"
    and dec: "utf8_text (drop fromOffset content) = drop fromOffset content"
    and nocr: "lf_only (drop fromOffset content)"
  shows "storage_getConversationStream parse (File content) fromOffset =
         getConversationStream parse (File content) fromOffset"
proof -
  define r where "r = drop fromOffset content"
  define ps where "ps = split_nl r"
  define rl where "rl = readline_lines r"
  define C where "C = line_consumed parse"
  define M where "M = line_message parse"
  have rne: "js_drop fromOffset (utf8_text content) \<noteq> []"
    using off sl by simp
  have len: "length content = fromOffset + length r"
    using off by (simp add: r_def)
  have Bps: "line_bytes ps = length r + 1"
    unfolding ps_def by (rule split_nl_bytes)
  have A: "getConversationStream parse (File content) fromOffset =
      \<lparr>messages = List.map_filter M (takeWhile C rl),
       nextOffset = min (fromOffset + length r) (fromOffset + line_bytes (takeWhile C rl))\<rparr>"
    unfolding getConversationStream_closed [OF off] dec rl_def r_def C_def M_def
      len [unfolded r_def]
    by (rule refl)
  have S: "storage_getConversationStream parse (File content) fromOffset =
      \<lparr>messages = List.map_filter M (takeWhile C ps),
       nextOffset = fromOffset +
           (line_bytes (takeWhile C ps) - (if takeWhile C ps = ps then 1 else 0))\<rparr>"
    unfolding storage_getConversationStream_closed [OF off rne] sl ps_def r_def C_def M_def
    by (rule refl)
  have rl_ps: "rl = (if last ps = [] then butlast ps else ps)"
    unfolding rl_def ps_def using nocr by (intro readline_lines_split_nl) (simp add: r_def)
  have psne: "ps \<noteq> []"
    unfolding ps_def by (rule split_nl_not_Nil)
  have goal: "List.map_filter M (takeWhile C ps) = List.map_filter M (takeWhile C rl)
      \<and> fromOffset + (line_bytes (takeWhile C ps) - (if takeWhile C ps = ps then 1 else 0))
        = min (fromOffset + length r) (fromOffset + line_bytes (takeWhile C rl))"
  proof (cases "last ps = []")
    case False
    then have eq: "rl = ps" using rl_ps by simp
    show ?thesis
    proof (cases "takeWhile C ps = ps")
      case True
      have "line_bytes (takeWhile C ps) = length r + 1"
        unfolding True by (rule Bps)
      then show ?thesis
        unfolding eq if_P [OF True] by simp
    next
      case ne: False
      have "line_bytes (takeWhile C ps) < line_bytes ps"
        using ne by (rule line_bytes_takeWhile_less)
      then have "line_bytes (takeWhile C ps) \<le> length r"
        unfolding Bps by simp
      then show ?thesis
        unfolding eq if_not_P [OF ne] by simp
    qed
  next
    case True
    then have rlb: "rl = butlast ps" using rl_ps by simp
    have pse: "ps = rl @ [[]]"
      using True psne rlb by (metis append_butlast_last_id)
    have Brl: "line_bytes rl = length r"
      using Bps unfolding pse by simp
    show ?thesis
    proof (cases "takeWhile C rl = rl")
      case all: True
      then have "\<forall>x\<in>set rl. C x"
        by (simp add: takeWhile_eq_all_conv)
      then have tw: "takeWhile C ps = ps"
        unfolding pse by (simp add: takeWhile_append2 C_def line_consumed_Nil)
      have mf: "List.map_filter M ps = List.map_filter M rl"
        unfolding pse by (simp add: map_filter_append map_filter_simps M_def line_message_Nil)
      have b: "line_bytes ps - 1 = length r"
        unfolding Bps by simp
      show ?thesis
        unfolding tw all mf if_P [OF refl] b Brl by simp
    next
      case ne: False
      then obtain x where x: "x \<in> set rl" "\<not> C x"
        by (auto simp: takeWhile_eq_all_conv)
      then have tw: "takeWhile C ps = takeWhile C rl"
        unfolding pse by (simp add: takeWhile_append1)
      have neq: "takeWhile C rl \<noteq> ps"
      proof
        assume "takeWhile C rl = ps"
        then have "length (takeWhile C rl) = length ps"
          by (rule arg_cong)
        also have "length ps = Suc (length rl)"
          by (subst pse) simp
        finally have "length (takeWhile C rl) = Suc (length rl)" .
        then show False
          using length_takeWhile_le [of C rl] by simp
      qed
      have "line_bytes (takeWhile C rl) < line_bytes rl"
        using ne by (rule line_bytes_takeWhile_less)
      then have "line_bytes (takeWhile C rl) \<le> length r"
        unfolding Brl by simp
      then show ?thesis
        unfolding tw if_not_P [OF neq] by simp
    qed
  qed
  show ?thesis
    unfolding A S using goal by simp
qed

text \<open>
  Where the two incremental readers agree: on a well-formed file whose bytes before the
  offset are ASCII and whose lines after it end with line feeds only.
\<close>

lemma readers_agree_ascii_lf:
  assumes "\<forall>c\<in>set (take fromOffset content). (of_char c :: nat) < 128"
    and "valid_utf8 content"
    and "lf_only (drop fromOffset content)"
  shows "storage_getConversationStream parse (File content) fromOffset =
         getConversationStream parse (File content) fromOffset"
proof (cases "fromOffset < length content")
  case True
  have "js_drop fromOffset (utf8_text content) = drop fromOffset content"
    using assms(2,1) by (rule js_drop_valid_ascii)
  moreover have "utf8_text (drop fromOffset content) = drop fromOffset content"
    using assms(2,1) by (intro valid_utf8_text valid_utf8_drop_ascii)
  ultimately show ?thesis
    using True assms(3) by (intro readers_agree_core)
next
  case False
  then show ?thesis
    by (simp add: storage_getConversationStream_def getConversationStream_def)
qed

text \<open>
  C10. The two readers differ. Take a transcript of two lines whose first line, 25
  bytes with its line feed, holds the two-byte character U+00E9. Resumed at byte 25,
  the module-level reader starts at that byte and returns the second line's message
  and offset 41; the class slices the decoded string at code unit 25, one character
  too far, fails to parse what is left of the second line and returns no message and
  offset 25 again. The class counts bytes itself: read from 0 it returns offset 41.
  The readers differ as well on a line that ends in carriage return and line feed,
  where the module-level reader counts one terminator byte (16) and the class both
  (17).
\<close>

theorem storage_reader_differs_from_stream_reader:
  "getConversationStream JSON_parse
     (File (''{\"type\":\"user\",\"x\":\"'' @ [CHR 0xC3, CHR 0xA9] @
            ''\"}\<newline>{\"type\":\"user\"}\<newline>'')) 25
     = \<lparr>messages = [JObj [(''type'', JStr ''user'')]], nextOffset = 41\<rparr>
   \<and> storage_getConversationStream JSON_parse
     (File (''{\"type\":\"user\",\"x\":\"'' @ [CHR 0xC3, CHR 0xA9] @
            ''\"}\<newline>{\"type\":\"user\"}\<newline>'')) 25
     = \<lparr>messages = [], nextOffset = 25\<rparr>
   \<and> nextOffset (storage_getConversationStream JSON_parse
     (File (''{\"type\":\"user\",\"x\":\"'' @ [CHR 0xC3, CHR 0xA9] @
            ''\"}\<newline>{\"type\":\"user\"}\<newline>'')) 0) = 41
   \<and> nextOffset (getConversationStream JSON_parse
          (File (''{\"type\":\"user\"}'' @ [CR, LF])) 0) = 16
   \<and> nextOffset (storage_getConversationStream JSON_parse
          (File (''{\"type\":\"user\"}'' @ [CR, LF])) 0) = 17"
  by code_simp

section \<open>Properties of session resolution\<close>








section \<open>Properties of token accounting\<close>















section \<open>Properties of the change watcher\<close>

lemma run_append:
  "run s (xs @ ys) =
     (case run s xs of (s', es) \<Rightarrow> (case run s' ys of (s'', es') \<Rightarrow> (s'', es @ es')))"
  by (induction xs arbitrary: s) (auto split: prod.splits)

lemma timers_recorded_initial: "timers_recorded initial_watcher"
  by (simp add: timers_recorded_def initial_watcher_def)

lemma timers_recorded_handleChange:
  assumes "timers_recorded s"
  shows "timers_recorded (handleChange s path)"
  unfolding timers_recorded_def
proof (intro allI impI)
  fix t p
  assume h: "map_of (timeouts (handleChange s path)) t = Some p"
  define cleared where "cleared = (case map_of (debounceTimers s) path of
                       None \<Rightarrow> timeouts s
                     | Some existing \<Rightarrow> AList.delete existing (timeouts s))"
  have to: "map_of (timeouts (handleChange s path)) = (map_of cleared)(nextTimeout s \<mapsto> path)"
    by (simp add: handleChange_def Let_def cleared_def update_conv')
  have dt: "map_of (debounceTimers (handleChange s path)) =
      (map_of (debounceTimers s))(path \<mapsto> nextTimeout s)"
    by (simp add: handleChange_def Let_def update_conv')
  show "map_of (debounceTimers (handleChange s path)) p = Some t"
  proof (cases "t = nextTimeout s")
    case True
    then have "p = path" using h unfolding to by simp
    then show ?thesis unfolding dt using True by simp
  next
    case nt: False
    have c: "map_of cleared t = Some p"
      using h nt unfolding to by simp
    have old: "map_of (timeouts s) t = Some p"
      using c unfolding cleared_def
      by (cases "map_of (debounceTimers s) path")
         (auto simp: delete_conv' split: if_splits)
    then have rec: "map_of (debounceTimers s) p = Some t"
      using assms by (simp add: timers_recorded_def)
    have "p \<noteq> path"
    proof
      assume "p = path"
      then have "map_of (debounceTimers s) path = Some t" using rec by simp
      then have "map_of cleared t = None"
        unfolding cleared_def by (simp add: delete_conv')
      then show False using c by simp
    qed
    then show ?thesis unfolding dt using rec by simp
  qed
qed

lemma timers_recorded_timeout:
  assumes "timers_recorded s" and "map_of (timeouts s) t = Some path"
  shows "timers_recorded (s\<lparr>timeouts := AList.delete t (timeouts s),
             debounceTimers := AList.delete path (debounceTimers s)\<rparr>)"
  unfolding timers_recorded_def
proof (intro allI impI)
  fix t' p
  have rec: "map_of (debounceTimers s) path = Some t"
    using assms by (simp add: timers_recorded_def)
  assume "map_of (timeouts (s\<lparr>timeouts := AList.delete t (timeouts s),
             debounceTimers := AList.delete path (debounceTimers s)\<rparr>)) t' = Some p"
  then have ne: "t' \<noteq> t" and old: "map_of (timeouts s) t' = Some p"
    by (simp_all add: delete_conv' split: if_splits)
  then have r: "map_of (debounceTimers s) p = Some t'"
    using assms(1) by (simp add: timers_recorded_def)
  have "p \<noteq> path" using r rec ne by auto
  then show "map_of (debounceTimers (s\<lparr>timeouts := AList.delete t (timeouts s),
             debounceTimers := AList.delete path (debounceTimers s)\<rparr>)) p = Some t'"
    using r by (simp add: delete_conv')
qed

lemma stop_stopped:
  assumes "timers_recorded s"
  shows "stopped (stop s)"
proof -
  have "t \<in> set (map snd (debounceTimers s))" if "(t, p) \<in> set (timeouts s)" for t p
  proof -
    from that obtain p' where "map_of (timeouts s) t = Some p'"
      by (metis weak_map_of_SomeI)
    then have "map_of (debounceTimers s) p' = Some t"
      using assms by (simp add: timers_recorded_def)
    then have "(p', t) \<in> set (debounceTimers s)"
      by (rule map_of_SomeD)
    then show ?thesis by force
  qed
  then have "filter (\<lambda>(t, path). t \<notin> set (map snd (debounceTimers s))) (timeouts s) = []"
    by (auto simp: filter_empty_conv)
  then show ?thesis
    by (simp add: stopped_def stop_def)
qed

lemma timers_recorded_perform:
  assumes "timers_recorded s"
  shows "timers_recorded (fst (perform s a))"
proof (cases a)
  case Start
  then show ?thesis using assms by (simp add: start_def timers_recorded_def)
next
  case Stop
  have "timeouts (stop s) = []"
    using stop_stopped [OF assms] by (simp add: stopped_def)
  then show ?thesis using Stop by (simp add: timers_recorded_def)
next
  case (FsEvent path)
  then show ?thesis
    using assms timers_recorded_handleChange [OF assms, of path] by simp
next
  case (Timeout t)
  show ?thesis
  proof (cases "map_of (timeouts s) t")
    case None
    then show ?thesis using assms Timeout by simp
  next
    case (Some path)
    then show ?thesis
      using timers_recorded_timeout [OF assms Some] Timeout by simp
  qed
qed

lemma timers_recorded_run:
  "timers_recorded s \<Longrightarrow> timers_recorded (fst (run s as))"
proof (induction as arbitrary: s)
  case Nil
  then show ?case by simp
next
  case (Cons a as)
  from timers_recorded_perform [OF Cons.prems, of a]
  have "timers_recorded (fst (run (fst (perform s a)) as))"
    by (rule Cons.IH)
  then show ?case
    by (cases "perform s a"; cases "run (fst (perform s a)) as") simp
qed

lemma stopped_perform:
  assumes "stopped s" and "a \<noteq> Start"
  shows "snd (perform s a) = [] \<and> stopped (fst (perform s a))"
  using assms by (cases a) (auto simp: stopped_def stop_def)

lemma stopped_run:
  assumes "stopped s" and "Start \<notin> set as"
  shows "snd (run s as) = []"
  using assms
proof (induction as arbitrary: s)
  case Nil
  then show ?case by simp
next
  case (Cons a as)
  have a: "a \<noteq> Start" and as: "Start \<notin> set as"
    using Cons.prems(2) by auto
  from stopped_perform [OF Cons.prems(1) a]
  have e: "snd (perform s a) = []" and st: "stopped (fst (perform s a))"
    by simp_all
  have "snd (run (fst (perform s a)) as) = []"
    using st as by (rule Cons.IH)
  then show ?case
    using e by (cases "perform s a"; cases "run (fst (perform s a)) as") simp
qed

lemma run_snd_append:
  "snd (run s (xs @ ys)) = snd (run s xs) @ snd (run (fst (run s xs)) ys)"
  by (simp add: run_append split: prod.splits)

lemma run_fst_append:
  "fst (run s (xs @ ys)) = fst (run (fst (run s xs)) ys)"
  by (simp add: run_append split: prod.splits)

text \<open>
  C9. Whatever happened to a watcher before, once \<open>stop\<close> has returned the event loop
  holds none of its timeouts and its handle is closed; and as long as \<open>start\<close> is not
  called again, nothing that happens afterwards (file system events, timeouts, further
  calls of \<open>stop\<close>) emits an event: the events of the whole history are those emitted
  before the call of \<open>stop\<close>.
\<close>

theorem no_emission_after_stop:
  assumes "Start \<notin> set after"
  shows "stopped (fst (run initial_watcher (before @ [Stop])))
       \<and> snd (run initial_watcher (before @ Stop # after)) = snd (run initial_watcher before)"
proof -
  define s where "s = fst (run initial_watcher before)"
  have "timers_recorded s"
    unfolding s_def using timers_recorded_initial by (rule timers_recorded_run)
  then have st: "stopped (stop s)"
    by (rule stop_stopped)
  then have quiet: "snd (run (stop s) after) = []"
    using assms by (rule stopped_run)
  have "snd (run s (Stop # after)) = snd (run (stop s) after)"
    by (cases "run (stop s) after") simp
  then have "snd (run initial_watcher (before @ Stop # after)) = snd (run initial_watcher before)"
    using quiet by (simp add: run_snd_append s_def)
  moreover have "stopped (fst (run initial_watcher (before @ [Stop])))"
    using st by (simp add: run_fst_append s_def)
  ultimately show ?thesis by simp
qed

lemma emission_without_stop:
  "snd (run initial_watcher [Start, FsEvent ''/h/.claude/history.jsonl'', Timeout 0])
     = [HistoryChange]"
  by code_simp

theorem no_emission_after_stop_witness:
  "Start \<notin> set [Timeout 0, FsEvent ''/h/.claude/history.jsonl'', Timeout 1]
   \<and> snd (run initial_watcher
          ([Start, FsEvent ''/h/.claude/history.jsonl''] @
           Stop # [Timeout 0, FsEvent ''/h/.claude/history.jsonl'', Timeout 1])) = []"
proof -
  have h: "Start \<notin> set [Timeout 0, FsEvent ''/h/.claude/history.jsonl'', Timeout 1]"
    by simp
  have b: "snd (run initial_watcher [Start, FsEvent ''/h/.claude/history.jsonl'']) = []"
    by code_simp
  show ?thesis
    using h no_emission_after_stop [OF h, of "[Start, FsEvent ''/h/.claude/history.jsonl'']"] b
    by simp
qed

section \<open>Properties of fork reconstruction\<close>

lemma children_map_root:
  assumes "\<not> present (parentUuid m)"
  shows "children_map (ms @ [m]) = children_map ms"
proof
  fix u
  show "children_map (ms @ [m]) u = children_map ms u"
    using assms by (cases "u = []") (auto simp: children_map_def present_def Let_def)
qed

lemma children_map_child:
  assumes "parentUuid m = Some p" and "p \<noteq> []"
  shows "(children_map ms)(p \<mapsto> (case children_map ms p of None \<Rightarrow> [] | Some xs \<Rightarrow> xs) @ [m])
        = children_map (ms @ [m])"
proof
  fix u
  show "((children_map ms)(p \<mapsto> (case children_map ms p of None \<Rightarrow> [] | Some xs \<Rightarrow> xs) @ [m])) u
        = children_map (ms @ [m]) u"
    using assms by (cases "u = p") (auto simp: children_map_def Let_def)
qed

lemma group_step_closed:
  "group_step (roots_of ms, children_map ms) m = (roots_of (ms @ [m]), children_map (ms @ [m]))"
proof (cases "present (parentUuid m)")
  case False
  then have "group_step (roots_of ms, children_map ms) m = (roots_of ms @ [m], children_map ms)"
    by (auto simp: group_step_def present_def split: option.splits)
  then show ?thesis
    using False by (simp add: children_map_root roots_of_def)
next
  case True
  then obtain p where p: "parentUuid m = Some p" "p \<noteq> []"
    by (auto simp: present_def)
  then have "group_step (roots_of ms, children_map ms) m =
      (roots_of ms,
       (children_map ms)(p \<mapsto> (case children_map ms p of None \<Rightarrow> [] | Some xs \<Rightarrow> xs) @ [m]))"
    by (simp add: group_step_def Let_def)
  then show ?thesis
    using True by (simp add: children_map_child [OF p] roots_of_def)
qed

lemma foldl_group_step:
  "foldl group_step ([], Map.empty) msgs = (roots_of msgs, children_map msgs)"
proof (induction msgs rule: rev_induct)
  case Nil
  show ?case
    by (auto simp: roots_of_def children_map_def)
next
  case (snoc m ms)
  then show ?case
    by (simp add: group_step_closed)
qed

lemma node_children_map:
  "node_children (children_map msgs) m =
     (if children_of msgs m = [] then None else Some (children_of msgs m))"
  by (cases "uuid m") (auto simp: node_children_def children_map_def children_of_def present_def Let_def)

lemma choose_child_in:
  assumes "cs \<noteq> []"
  shows "choose_child bc cur cs \<in> set cs"
proof -
  have "find P cs = Some c \<Longrightarrow> c \<in> set cs" for P c
    by (auto simp: find_Some_iff)
  then show ?thesis
    using assms by (auto simp: choose_child_def Let_def split: option.splits)
qed

lemma in_subtree_trans:
  assumes "in_subtree msgs a b" and "in_subtree msgs b m"
  shows "in_subtree msgs a m"
  using assms(2)
proof (induction rule: in_subtree.induct)
  case self
  then show ?case by (rule assms(1))
next
  case (child q c)
  then show ?case by (blast intro: in_subtree.child)
qed

lemma children_of_subset: "set (children_of msgs m) \<subseteq> set msgs"
  by (auto simp: children_of_def)

lemma walk_step:
  assumes "children_of msgs cur \<noteq> []"
  shows "walk (children_map msgs) bc cur =
     Option.bind (walk (children_map msgs) bc (choose_child bc cur (children_of msgs cur)))
       (\<lambda>chain. Some (cur # chain))"
  by (subst walk.simps) (simp add: node_children_map assms)

lemma walk_leaf:
  assumes "children_of msgs cur = []"
  shows "walk (children_map msgs) bc cur = Some [cur]"
  by (subst walk.simps) (simp add: node_children_map assms)

lemma walk_tree:
  fixes rank :: "'a conversation_message_scheme \<Rightarrow> nat"
  assumes acyclic: "\<And>q c. q \<in> set msgs \<Longrightarrow> c \<in> set (children_of msgs q) \<Longrightarrow> rank q < rank c"
    and cur: "cur \<in> set msgs"
  shows "\<exists>path. walk (children_map msgs) bc cur = Some (cur # path)
      \<and> children_of msgs (last (cur # path)) = []
      \<and> (\<forall>m\<in>set (cur # path). in_subtree msgs cur m)"
  using cur
proof (induction "Max (rank ` set msgs) - rank cur" arbitrary: cur rule: less_induct)
  case less
  show ?case
  proof (cases "children_of msgs cur = []")
    case True
    have "walk (children_map msgs) bc cur = Some (cur # [])"
      using walk_leaf [OF True] by simp
    moreover have "children_of msgs (last (cur # [])) = []"
      using True by simp
    moreover have "\<forall>m\<in>set (cur # []). in_subtree msgs cur m"
      by (simp add: in_subtree.self)
    ultimately show ?thesis by blast
  next
    case False
    define nxt where "nxt = choose_child bc cur (children_of msgs cur)"
    have nin: "nxt \<in> set (children_of msgs cur)"
      unfolding nxt_def using False by (rule choose_child_in)
    then have nmsgs: "nxt \<in> set msgs"
      using children_of_subset by blast
    have lt: "rank cur < rank nxt"
      using less.prems nin by (rule acyclic)
    have "rank nxt \<le> Max (rank ` set msgs)"
      using nmsgs by simp
    then have "Max (rank ` set msgs) - rank nxt < Max (rank ` set msgs) - rank cur"
      using lt by simp
    from less.hyps [OF this nmsgs] obtain path where
      w: "walk (children_map msgs) bc nxt = Some (nxt # path)"
      and leaf: "children_of msgs (last (nxt # path)) = []"
      and sub: "\<forall>m\<in>set (nxt # path). in_subtree msgs nxt m"
      by blast
    have cn: "in_subtree msgs cur nxt"
      using in_subtree.self nin by (rule in_subtree.child)
    have "walk (children_map msgs) bc cur = Some (cur # nxt # path)"
      using walk_step [OF False, of bc] w by (simp add: nxt_def)
    moreover have "children_of msgs (last (cur # nxt # path)) = []"
      using leaf by simp
    moreover have "\<forall>m\<in>set (cur # nxt # path). in_subtree msgs cur m"
      using sub cn by (auto intro: in_subtree.self in_subtree_trans)
    ultimately show ?thesis by blast
  qed
qed

lemma buildBranch_walk:
  assumes "roots_of msgs = root # others"
  shows "buildBranch msgs bc = walk (children_map msgs) bc root"
proof -
  have "msgs \<noteq> []"
    using assms by (auto simp: roots_of_def)
  then show ?thesis
    by (simp add: buildBranch_def foldl_group_step assms)
qed

lemma buildBranch_no_root:
  assumes "\<forall>m\<in>set msgs. present (parentUuid m)"
  shows "buildBranch msgs bc = Some msgs"
proof (cases "msgs = []")
  case True
  then show ?thesis by (simp add: buildBranch_def)
next
  case False
  have "roots_of msgs = []"
    using assms by (simp add: roots_of_def)
  then show ?thesis
    using False by (simp add: buildBranch_def foldl_group_step)
qed

lemma buildBranch_through:
  fixes rank :: "'a conversation_message_scheme \<Rightarrow> nat"
  assumes acyclic: "\<forall>q\<in>set msgs. \<forall>c\<in>set (children_of msgs q). rank q < rank c"
    and root: "roots_of msgs = [root]"
    and kids: "children_of msgs root \<noteq> []"
    and nxt: "choose_child bc root (children_of msgs root) = c"
  shows "\<exists>rest. buildBranch msgs bc = Some (root # c # rest)
      \<and> children_of msgs (last (c # rest)) = []
      \<and> (\<forall>m\<in>set (c # rest). in_subtree msgs c m)"
proof -
  have "c \<in> set (children_of msgs root)"
    using choose_child_in [OF kids, of bc root] nxt by simp
  then have cm: "c \<in> set msgs"
    using children_of_subset by blast
  have ac: "\<And>q c. q \<in> set msgs \<Longrightarrow> c \<in> set (children_of msgs q) \<Longrightarrow> rank q < rank c"
    using acyclic by blast
  from walk_tree [of msgs rank c bc, OF ac cm] obtain rest where
    w: "walk (children_map msgs) bc c = Some (c # rest)"
    and leaf: "children_of msgs (last (c # rest)) = []"
    and sub: "\<forall>m\<in>set (c # rest). in_subtree msgs c m"
    by blast
  have "buildBranch msgs bc = Some (root # c # rest)"
    using buildBranch_walk [OF root, of bc] walk_step [OF kids, of bc] w nxt by simp
  then show ?thesis
    using leaf sub by blast
qed

text \<open>
  C6. Take messages whose child links are acyclic (each child has a greater rank than
  its parent), with one root, and two children \<open>c1\<close>, \<open>c2\<close> of that root, listed in this
  order, of different uuid. When no choice is recorded for the root, the branch is
  the root, then \<open>c2\<close>, then messages of the subtree of \<open>c2\<close>, and it ends at a message
  without children. When the uuid of one of the two children is recorded as the
  choice for the root, the branch passes through that child instead and ends at a leaf
  of its subtree. When every message has a parentUuid that is present (not null and
  not the empty string, which JavaScript takes for absent), among them the empty
  input, there is no root and the flat sequence is returned as it is.
\<close>

theorem buildBranch_fork:
  fixes rank :: "'a conversation_message_scheme \<Rightarrow> nat"
  assumes "\<forall>q\<in>set msgs. \<forall>c\<in>set (children_of msgs q). rank q < rank c"
    and "roots_of msgs = [root]"
    and "children_of msgs root = [c1, c2]"
    and "uuid c1 \<noteq> uuid c2"
    and "uuid root = Some u"
    and "bc u = None"
    and "chosen = c1 \<or> chosen = c2"
    and "uuid chosen = Some k" and "k \<noteq> []"
  shows "(\<exists>rest. buildBranch msgs bc = Some (root # c2 # rest)
            \<and> children_of msgs (last (c2 # rest)) = []
            \<and> (\<forall>m\<in>set (c2 # rest). in_subtree msgs c2 m))
       \<and> (\<exists>rest. buildBranch msgs (bc(u \<mapsto> k)) = Some (root # chosen # rest)
            \<and> children_of msgs (last (chosen # rest)) = []
            \<and> (\<forall>m\<in>set (chosen # rest). in_subtree msgs chosen m))
       \<and> ((\<forall>m\<in>set flat. present (parentUuid m)) \<longrightarrow> buildBranch flat bc' = Some flat)"
proof (intro conjI impI)
  have kids: "children_of msgs root \<noteq> []"
    using assms(3) by simp
  then have pu: "present (uuid root)"
    by (auto simp: children_of_def split: if_splits)
  then have u: "u \<noteq> []"
    using assms(5) by (simp add: present_def)
  have "choose_child bc root (children_of msgs root) = c2"
    using assms(3,5,6) u by (simp add: choose_child_def present_def)
  with assms(1,2) kids
  show "\<exists>rest. buildBranch msgs bc = Some (root # c2 # rest)
            \<and> children_of msgs (last (c2 # rest)) = []
            \<and> (\<forall>m\<in>set (c2 # rest). in_subtree msgs c2 m)"
    by (rule buildBranch_through)
  have "find (\<lambda>c. uuid c = Some k) [c1, c2] = Some chosen"
    using assms(4,7,8) by auto
  then have "choose_child (bc(u \<mapsto> k)) root (children_of msgs root) = chosen"
    using assms(3,5,9) u by (simp add: choose_child_def present_def)
  with assms(1,2) kids
  show "\<exists>rest. buildBranch msgs (bc(u \<mapsto> k)) = Some (root # chosen # rest)
            \<and> children_of msgs (last (chosen # rest)) = []
            \<and> (\<forall>m\<in>set (chosen # rest). in_subtree msgs chosen m)"
    by (rule buildBranch_through)
next
  assume "\<forall>m\<in>set flat. present (parentUuid m)"
  then show "buildBranch flat bc' = Some flat"
    by (rule buildBranch_no_root)
qed

lemma buildBranch_example:
  "buildBranch
     [\<lparr>uuid = Some ''r'', parentUuid = None\<rparr>, \<lparr>uuid = Some ''a'', parentUuid = Some ''r''\<rparr>,
      \<lparr>uuid = Some ''b'', parentUuid = Some ''r''\<rparr>, \<lparr>uuid = Some ''g'', parentUuid = Some ''b''\<rparr>]
     Map.empty
   = Some [\<lparr>uuid = Some ''r'', parentUuid = None\<rparr>, \<lparr>uuid = Some ''b'', parentUuid = Some ''r''\<rparr>,
           \<lparr>uuid = Some ''g'', parentUuid = Some ''b''\<rparr>]"
  by code_simp

theorem buildBranch_fork_witness:
  "(\<exists>rest. buildBranch
       [\<lparr>uuid = Some ''r'', parentUuid = None\<rparr>, \<lparr>uuid = Some ''a'', parentUuid = Some ''r''\<rparr>,
        \<lparr>uuid = Some ''b'', parentUuid = Some ''r''\<rparr>, \<lparr>uuid = Some ''g'', parentUuid = Some ''b''\<rparr>]
       Map.empty
     = Some (\<lparr>uuid = Some ''r'', parentUuid = None\<rparr> #
             \<lparr>uuid = Some ''b'', parentUuid = Some ''r''\<rparr> # rest))
   \<and> (\<exists>rest. buildBranch
       [\<lparr>uuid = Some ''r'', parentUuid = None\<rparr>, \<lparr>uuid = Some ''a'', parentUuid = Some ''r''\<rparr>,
        \<lparr>uuid = Some ''b'', parentUuid = Some ''r''\<rparr>, \<lparr>uuid = Some ''g'', parentUuid = Some ''b''\<rparr>]
       (Map.empty(''r'' \<mapsto> ''a''))
     = Some (\<lparr>uuid = Some ''r'', parentUuid = None\<rparr> #
             \<lparr>uuid = Some ''a'', parentUuid = Some ''r''\<rparr> # rest))
   \<and> buildBranch [\<lparr>uuid = Some ''a'', parentUuid = Some ''r''\<rparr>] Map.empty
       = Some [\<lparr>uuid = Some ''a'', parentUuid = Some ''r''\<rparr>]"
proof -
  define r0 :: conversation_message where "r0 = \<lparr>uuid = Some ''r'', parentUuid = None\<rparr>"
  define a :: conversation_message where "a = \<lparr>uuid = Some ''a'', parentUuid = Some ''r''\<rparr>"
  define b :: conversation_message where "b = \<lparr>uuid = Some ''b'', parentUuid = Some ''r''\<rparr>"
  define g :: conversation_message where "g = \<lparr>uuid = Some ''g'', parentUuid = Some ''b''\<rparr>"
  define rank :: "conversation_message \<Rightarrow> nat" where
    "rank = (\<lambda>m. if parentUuid m = None then 0 else if parentUuid m = Some ''r'' then 1 else 2)"
  have h1: "\<forall>q\<in>set [r0, a, b, g]. \<forall>c\<in>set (children_of [r0, a, b, g] q). rank q < rank c"
    by (simp add: children_of_def present_def r0_def a_def b_def g_def rank_def)
  have h2: "roots_of [r0, a, b, g] = [r0]"
    by (simp add: roots_of_def present_def r0_def a_def b_def g_def)
  have h3: "children_of [r0, a, b, g] r0 = [a, b]"
    by (simp add: children_of_def present_def r0_def a_def b_def g_def)
  have h4: "uuid a \<noteq> uuid b"
    by (simp add: a_def b_def)
  have h5: "uuid r0 = Some ''r''"
    by (simp add: r0_def)
  have h6: "(Map.empty :: string \<rightharpoonup> string) ''r'' = None"
    by simp
  have h7: "a = a \<or> a = b"
    by simp
  have h8: "uuid a = Some ''a''" and h9: "''a'' \<noteq> []"
    by (simp_all add: a_def)
  have h10: "\<forall>m\<in>set [a]. present (parentUuid m)"
    by (simp add: a_def present_def)
  from buildBranch_fork [OF h1 h2 h3 h4 h5 h6 h7 h8 h9, of "[a]" Map.empty] h10
  show ?thesis
    unfolding r0_def a_def b_def g_def by blast
qed

section \<open>Properties of the search\<close>

lemma match_loop_closed:
  "length found \<le> 3 \<Longrightarrow>
   match_loop parse lower query found lines =
     take 3 (found @ List.map_filter (line_match parse lower query) lines)"
proof (induction lines arbitrary: found)
  case Nil
  then show ?case by (simp add: map_filter_simps)
next
  case (Cons line rest)
  show ?case
  proof (cases "length found \<ge> 3")
    case True
    then show ?thesis using Cons.prems by simp
  next
    case False
    show ?thesis
    proof (cases "line_match parse lower query line")
      case None
      then show ?thesis using False Cons.IH [OF Cons.prems]
        by (simp add: map_filter_simps)
    next
      case (Some m)
      have "length (found @ [m]) \<le> 3" using False by simp
      from Cons.IH [OF this] show ?thesis using False Some
        by (simp add: map_filter_simps)
    qed
  qed
qed

lemma result_loop_closed:
  "length results \<le> maxResults \<Longrightarrow>
   result_loop parse lower sessions readFile query maxResults results entries =
     take maxResults
       (results @ List.map_filter (entry_result parse lower sessions readFile query) entries)"
proof (induction entries arbitrary: results)
  case Nil
  then show ?case by (simp add: map_filter_simps)
next
  case (Cons entry rest)
  show ?case
  proof (cases "length results \<ge> maxResults")
    case True
    then show ?thesis using Cons.prems by simp
  next
    case False
    show ?thesis
    proof (cases "entry_result parse lower sessions readFile query entry")
      case None
      then show ?thesis using False Cons.IH [OF Cons.prems]
        by (simp add: map_filter_simps)
    next
      case (Some r)
      have "length (results @ [r]) \<le> maxResults" using False by simp
      from Cons.IH [OF this] show ?thesis using False Some
        by (simp add: map_filter_simps)
    qed
  qed
qed

lemma entry_result_matches:
  assumes "entry_result parse lower sessions readFile query entry = Some r"
  shows "1 \<le> length (matches r) \<and> length (matches r) \<le> 3"
proof -
  obtain sid filePath where e: "entry = (sid, filePath)" by (cases entry)
  from assms obtain content where
    m: "matches r = match_loop parse lower query [] (conversation_lines content)"
    and pos: "0 < length (match_loop parse lower query [] (conversation_lines content))"
    by (auto simp: entry_result_def e Let_def split: option.splits if_splits)
  have "length (match_loop parse lower query [] (conversation_lines content)) \<le> 3"
    by (simp add: match_loop_closed)
  moreover have "1 \<le> length (match_loop parse lower query [] (conversation_lines content))"
    using pos by linarith
  ultimately show ?thesis unfolding m by blast
qed

lemma entry_result_no_match:
  assumes "entry_match_count parse lower sessions readFile query entry = 0"
  shows "entry_result parse lower sessions readFile query entry = None"
proof -
  obtain sid filePath where e: "entry = (sid, filePath)" by (cases entry)
  show ?thesis
    using assms
    by (auto simp: entry_result_def entry_match_count_def e Let_def match_loop_closed
             split: option.splits)
qed

lemma entry_result_one_match:
  assumes "entry_match_count parse lower sessions readFile query entry = 1"
  shows "\<exists>r. entry_result parse lower sessions readFile query entry = Some r
           \<and> length (matches r) = 1"
proof -
  obtain sid filePath where e: "entry = (sid, filePath)" by (cases entry)
  show ?thesis
    using assms
    by (auto simp: entry_result_def entry_match_count_def e Let_def match_loop_closed
             split: option.splits)
qed

lemma sum_list_one:
  fixes f :: "'a \<Rightarrow> nat"
  assumes "sum_list (map f xs) = 1"
  shows "\<exists>pre x post. xs = pre @ x # post \<and> f x = 1
           \<and> (\<forall>y\<in>set pre. f y = 0) \<and> (\<forall>y\<in>set post. f y = 0)"
  using assms
proof (induction xs)
  case Nil
  then show ?case by simp
next
  case (Cons a xs)
  show ?case
  proof (cases "f a = 0")
    case True
    then have "sum_list (map f xs) = 1" using Cons.prems by simp
    from Cons.IH [OF this] obtain pre x post where
      p: "xs = pre @ x # post" "f x = 1" "\<forall>y\<in>set pre. f y = 0" "\<forall>y\<in>set post. f y = 0"
      by blast
    show ?thesis
    proof (intro exI conjI)
      show "a # xs = (a # pre) @ x # post" using p(1) by simp
      show "f x = 1" by (rule p(2))
      show "\<forall>y\<in>set (a # pre). f y = 0" using True p(3) by simp
      show "\<forall>y\<in>set post. f y = 0" by (rule p(4))
    qed
  next
    case False
    have "f a + sum_list (map f xs) = 1"
      using Cons.prems by simp
    then have fa: "f a = 1" and rest: "sum_list (map f xs) = 0"
      using False by linarith+
    show ?thesis
    proof (intro exI conjI)
      show "a # xs = [] @ a # xs" by simp
      show "f a = 1" by (rule fa)
      show "\<forall>y\<in>set []. f y = 0" by simp
      show "\<forall>y\<in>set xs. f y = 0" using rest by simp
    qed
  qed
qed

lemma map_filter_all_None:
  "\<forall>y\<in>set ys. g y = None \<Longrightarrow> List.map_filter g ys = []"
  by (induction ys) (simp_all add: map_filter_simps)

lemma search_unique_match:
  assumes q: "2 \<le> js_length query" and mx: "1 \<le> maxResults"
    and one: "sum_list (map (entry_match_count parse lower sessions readFile query) fileIndex) = 1"
  shows "\<exists>r. searchSessions parse lower sessions fileIndex readFile query maxResults = [r]
           \<and> length (matches r) = 1"
proof -
  from sum_list_one [OF one] obtain pre x post where
    sp: "fileIndex = pre @ x # post"
    and x1: "entry_match_count parse lower sessions readFile query x = 1"
    and p0: "\<forall>y\<in>set pre. entry_match_count parse lower sessions readFile query y = 0"
    and s0: "\<forall>y\<in>set post. entry_match_count parse lower sessions readFile query y = 0"
    by blast
  from entry_result_one_match [OF x1] obtain r where
    r: "entry_result parse lower sessions readFile query x = Some r" "length (matches r) = 1"
    by blast
  have "List.map_filter (entry_result parse lower sessions readFile query) pre = []"
    using p0 by (intro map_filter_all_None) (simp add: entry_result_no_match)
  moreover have "List.map_filter (entry_result parse lower sessions readFile query) post = []"
    using s0 by (intro map_filter_all_None) (simp add: entry_result_no_match)
  ultimately have "List.map_filter (entry_result parse lower sessions readFile query) fileIndex = [r]"
    unfolding sp by (simp add: map_filter_append map_filter_simps r(1))
  then have "result_loop parse lower sessions readFile query maxResults [] fileIndex = [r]"
    using mx by (simp add: result_loop_closed)
  moreover have "query \<noteq> []"
    using q by auto
  ultimately have "searchSessions parse lower sessions fileIndex readFile query maxResults = [r]"
    using q by (simp add: searchSessions_def)
  then show ?thesis using r(2) by blast
qed

lemma set_map_filter:
  "set (List.map_filter g xs) = {y. \<exists>x\<in>set xs. g x = Some y}"
  by (induction xs) (auto simp: map_filter_simps split: option.splits)

lemma search_results_bounds:
  "(\<forall>r\<in>set (searchSessions parse lower sessions fileIndex readFile query maxResults).
      1 \<le> length (matches r) \<and> length (matches r) \<le> 3)
   \<and> length (searchSessions parse lower sessions fileIndex readFile query maxResults)
       \<le> maxResults"
proof (cases "query = [] \<or> js_length query < 2")
  case True
  then show ?thesis by (simp add: searchSessions_def)
next
  case False
  define found where
    "found = List.map_filter (entry_result parse lower sessions readFile query) fileIndex"
  have s: "searchSessions parse lower sessions fileIndex readFile query maxResults =
      sort_key (\<lambda>r. - search_result.timestamp r) (take maxResults found)"
    using False by (simp add: searchSessions_def result_loop_closed found_def)
  have "1 \<le> length (matches r) \<and> length (matches r) \<le> 3" if "r \<in> set (take maxResults found)" for r
  proof -
    from that have "r \<in> set found" by (rule in_set_takeD)
    then obtain e where "entry_result parse lower sessions readFile query e = Some r"
      unfolding found_def set_map_filter by blast
    then show ?thesis by (rule entry_result_matches)
  qed
  then show ?thesis
    unfolding s by simp
qed

text \<open>
  C4, as the code has it. A query of fewer than two characters returns no result,
  whatever is stored; a query of two characters, such as \<open>hi\<close>, is searched. Every
  result carries at least one and at most three matches, and there are at most
  \<open>maxResults\<close> results. When the query has at least two characters, at least one
  result is allowed and exactly one message matches in the transcripts that are
  indexed, listed and readable, the search returns exactly one result, with that one
  match.
\<close>

theorem search_short_query_and_match_cap:
  "(js_length query < 2 \<longrightarrow>
      searchSessions parse lower sessions fileIndex readFile query maxResults = [])
   \<and> (\<forall>r\<in>set (searchSessions parse lower sessions fileIndex readFile query maxResults).
        1 \<le> length (matches r) \<and> length (matches r) \<le> 3)
   \<and> length (searchSessions parse lower sessions fileIndex readFile query maxResults)
       \<le> maxResults
   \<and> (2 \<le> js_length query \<and> 1 \<le> maxResults
        \<and> sum_list (map (entry_match_count parse lower sessions readFile query) fileIndex) = 1
      \<longrightarrow> (\<exists>r. searchSessions parse lower sessions fileIndex readFile query maxResults = [r]
             \<and> length (matches r) = 1))"
proof (intro conjI impI)
  assume "js_length query < 2"
  then show "searchSessions parse lower sessions fileIndex readFile query maxResults = []"
    by (simp add: searchSessions_def)
next
  show "\<forall>r\<in>set (searchSessions parse lower sessions fileIndex readFile query maxResults).
        1 \<le> length (matches r) \<and> length (matches r) \<le> 3"
    using search_results_bounds [of parse lower sessions fileIndex readFile query maxResults]
    by blast
  show "length (searchSessions parse lower sessions fileIndex readFile query maxResults)
       \<le> maxResults"
    using search_results_bounds [of parse lower sessions fileIndex readFile query maxResults]
    by blast
next
  assume "2 \<le> js_length query \<and> 1 \<le> maxResults
        \<and> sum_list (map (entry_match_count parse lower sessions readFile query) fileIndex) = 1"
  then show "\<exists>r. searchSessions parse lower sessions fileIndex readFile query maxResults = [r]
             \<and> length (matches r) = 1"
    using search_unique_match by blast
qed

theorem search_short_query_and_match_cap_witness:
  "\<exists>r. searchSessions JSON_parse ascii_lower
          [\<lparr>session_id = ''s1'', display = ''greeting'', timestamp = 1000, project = ''/Users/a/app'',
            projectName = ''app''\<rparr>]
          [(''s1'', ''/p/s1.jsonl'')]
          (\<lambda>path. if path = ''/p/s1.jsonl''
             then Some ''{\"type\":\"user\",\"message\":{\"content\":\"Oh HI! there\"}}\<newline>''
             else None)
          ''hi!'' 20 = [r]
       \<and> length (matches r) = 1"
proof -
  have h1: "2 \<le> js_length ''hi!''"
    by code_simp
  have h2: "(1::nat) \<le> 20"
    by simp
  have h3: "sum_list (map (entry_match_count JSON_parse ascii_lower
          [\<lparr>session_id = ''s1'', display = ''greeting'', timestamp = 1000, project = ''/Users/a/app'',
            projectName = ''app''\<rparr>]
          (\<lambda>path. if path = ''/p/s1.jsonl''
             then Some ''{\"type\":\"user\",\"message\":{\"content\":\"Oh HI! there\"}}\<newline>''
             else None)
          ''hi!'') [(''s1'', ''/p/s1.jsonl'')]) = 1"
    by code_simp
  from search_short_query_and_match_cap
    [of "''hi!''" JSON_parse ascii_lower _ "[(''s1'', ''/p/s1.jsonl'')]" _ 20] h1 h2 h3
  show ?thesis
    by blast
qed

text \<open>
  The claim as stated fails: the two-character query \<open>hi\<close> is searched, and returns the
  session whose message contains it.
\<close>

theorem search_two_characters_returns_result:
  "js_length ''hi'' = 2
   \<and> map search_result.sessionId
        (searchSessions JSON_parse ascii_lower
          [\<lparr>session_id = ''s1'', display = ''greeting'', timestamp = 1000, project = ''/Users/a/app'',
            projectName = ''app''\<rparr>]
          [(''s1'', ''/p/s1.jsonl'')]
          (\<lambda>path. if path = ''/p/s1.jsonl''
             then Some ''{\"type\":\"user\",\"message\":{\"content\":\"Oh hi there\"}}\<newline>''
             else None)
          ''hi'' 20) = [''s1'']"
  by code_simp

end
